theory Spec2Isabelle
  imports Main "HOL-Library.Sublist" "HOL-Library.Code_Target_Nat"
begin

section \<open>Data model of the search worker (CommandControl.cpp)\<close>

text \<open>
  The worker class \<open>CommandControl\<close> extends \<open>Solver\<close>. Only CommandControl.cpp and
  Simplifier.h are at hand; the headers that declare the literal, value, reason and
  watch types (SolverTypes.h, PropBy.h, Watched.h, Solver.h) are not. The types below
  follow the way CommandControl.cpp uses them and the data model of the specification.

  Vectors indexed by a variable or by a literal (assigns, varData, seen, watches, the
  implication cache) are sized by \<open>newVar\<close> to cover every variable; they are total
  functions here. Counters, levels and positions in the trail are \<open>uint32_t\<close>,
  \<open>uint64_t\<close> or \<open>int\<close> in the source and natural numbers here (\<open>pathC\<close>, which
  can fall below zero, is an integer): the model does not wrap around, so it describes
  runs in which the trail stays below \<open>2^31\<close> entries and no counter overflows.
\<close>

datatype lbool = l_True | l_False | l_Undef

text \<open>
  Modelled from the spec: \<open>lbool::operator^(bool)\<close> (SolverTypes.h is not among the
  sources). A three-valued value; the sign of a literal swaps True and False and leaves
  Undef alone. MyAttachSorter computes a literal's value as
  \<open>assigns[lit.var()] ^ lit.sign()\<close>.
\<close>

fun lbool_xor :: "lbool \<Rightarrow> bool \<Rightarrow> lbool" where
  "lbool_xor l_True True = l_False"
| "lbool_xor l_False True = l_True"
| "lbool_xor v _ = v"

datatype Lit = Lit (var: nat) (sign: bool)

text \<open>
  Modelled from the spec: the canonical encoding packs the sign into bit 0
  (\<open>toInt\<close>), so that the complement \<open>~p\<close> is XOR 1.
\<close>

definition toInt :: "Lit \<Rightarrow> nat" where
  "toInt p = 2 * var p + (if sign p then 1 else 0)"

definition lit_neg :: "Lit \<Rightarrow> Lit" where
  "lit_neg p = Lit (var p) (\<not> sign p)"

text \<open>
  The sentinels \<open>var_Undef\<close> and \<open>lit_Undef\<close> are declared in SolverTypes.h, which
  is not among the sources: \<open>var_Undef\<close> is the largest 31-bit number there, and
  \<open>lit_Undef\<close>, also the default-constructed literal, is the positive literal of
  \<open>var_Undef\<close>. The functions below only compare literals with \<open>lit_Undef\<close>.
\<close>

definition var_Undef :: nat where
  "var_Undef = 2147483647"

definition lit_Undef :: Lit where
  "lit_Undef = Lit var_Undef False"

text \<open>
  The reason of an assignment (class \<open>PropBy\<close>): none, the other literal of a binary
  clause, the two other literals of a ternary clause, or the offset of a long clause
  with the number (0 or 1) of the watch that propagated. The constructors are named
  after the tags \<open>getType()\<close> returns; the arguments of \<open>tertiary_t\<close> are
  \<open>getOtherLit()\<close> and \<open>getOtherLit2()\<close>, in this order, those of \<open>clause_t\<close> are
  \<open>getClause()\<close> and \<open>getWatchNum()\<close>.
\<close>

datatype PropBy =
    null_clause_t
  | binary_t Lit
  | tertiary_t Lit Lit
  | clause_t nat nat

definition isNULL :: "PropBy \<Rightarrow> bool" where
  "isNULL r = (r = null_clause_t)"

text \<open>
  A watch-list entry (class \<open>Watched\<close>): binary (the other literal and the learnt
  flag), ternary (\<open>getOtherLit()\<close> and \<open>getOtherLit2()\<close>) or long (offset and
  blocker).
\<close>

datatype Watched =
    BinaryWatch Lit bool
  | TriWatch Lit Lit
  | LongWatch nat Lit

record VarData =
  level :: nat
  reason :: PropBy
  elimed :: bool

record Clause =
  lits :: "Lit list"
  getNum :: nat

record SolverConf =
  doCache :: bool
  doMinimLearntMore :: bool
  doAlwaysFMinim :: bool
  doPrintConflDot :: bool
  numTooLowAgilitiesLimit :: nat
  verbosity :: nat

datatype error =
    AssertionFailed string
  | OutOfBounds string

text \<open>
  The state of one worker. The field \<open>ext\<close> stands for the parts of the object that
  the code at hand only reaches through classes that are not among the sources: the
  agility estimator, the bounded histories, the variable activities and the order of
  the heap they induce, the saved polarities (read through \<open>getPolarity\<close>), the
  random generator and the coordinator (\<open>control\<close>) with its clause allocator and
  logs. \<open>order_heap\<close> holds the variables that are in the heap.
  \<open>implCache\<close> and \<open>decision_var\<close> are the coordinator's tables that the worker
  reads; \<open>clAllocator\<close> maps an offset to the clause stored there and \<open>clauseData\<close>
  a clause number to its two watched positions \<open>litPos\<close>.
\<close>

record 'x solver =
  conf :: SolverConf
  ok :: bool
  assigns :: "nat \<Rightarrow> lbool"
  varData :: "nat \<Rightarrow> VarData"
  trail :: "Lit list"
  trail_lim :: "nat list"
  qhead :: nat
  seen :: "nat \<Rightarrow> bool"
  toClear :: "Lit list"
  failBinLit :: Lit
  watches :: "nat \<Rightarrow> Watched list"
  clAllocator :: "nat \<Rightarrow> Clause"
  clauseData :: "nat \<Rightarrow> nat \<Rightarrow> nat"
  implCache :: "nat \<Rightarrow> Lit list"
  decision_var :: "nat \<Rightarrow> bool"
  order_heap :: "nat set"
  assumptions :: "Lit list"
  conflict :: "Lit list"
  unitToAdd :: "Lit list"
  binToAdd :: "(Lit \<times> Lit \<times> bool) list"
  longToAdd :: "nat list"
  lastSumConfl :: nat
  lastUnit :: nat
  numConflicts :: nat
  numRestarts :: nat
  decisions :: nat
  max_literals :: nat
  tot_literals :: nat
  furtherClMinim :: nat
  numShrinkedClause :: nat
  numShrinkedClauseLits :: nat
  needToInterrupt :: bool
  ext :: 'x

section \<open>Decision levels, values, enqueueing (Solver.h)\<close>

text \<open>
  Modelled from the spec: \<open>Solver::value\<close>, \<open>Solver::decisionLevel\<close>,
  \<open>Solver::newDecisionLevel\<close> and \<open>Solver::enqueue\<close> are declared in Solver.h,
  which is not among the sources. From the specification: \<open>decisionLevel() = |trail_lim|\<close>;
  \<open>newDecisionLevel()\<close> pushes the current trail size into \<open>trail_lim\<close>; an enqueued
  literal becomes True, is appended to the trail, and gets the current decision level
  and the given reason.
\<close>

definition value_var :: "'x solver \<Rightarrow> nat \<Rightarrow> lbool" where
  "value_var s v = assigns s v"

definition value_lit :: "'x solver \<Rightarrow> Lit \<Rightarrow> lbool" where
  "value_lit s p = lbool_xor (assigns s (var p)) (sign p)"

definition decisionLevel :: "'x solver \<Rightarrow> nat" where
  "decisionLevel s = length (trail_lim s)"

definition newDecisionLevel :: "'x solver \<Rightarrow> 'x solver" where
  "newDecisionLevel s = s\<lparr>trail_lim := trail_lim s @ [length (trail s)]\<rparr>"

definition enqueue :: "Lit \<Rightarrow> PropBy \<Rightarrow> 'x solver \<Rightarrow> 'x solver" where
  "enqueue p from s =
     s\<lparr>assigns := (assigns s)(var p := (if sign p then l_False else l_True)),
       varData := (varData s)(var p := (varData s (var p))\<lparr>level := decisionLevel s, reason := from\<rparr>),
       trail := trail s @ [p]\<rparr>"

section \<open>cancelUntil\<close>

text \<open>
  \<open>insertVarOrder\<close>: a variable enters the heap when it is not in it and is a decision
  variable.
\<close>

definition insertVarOrder :: "nat \<Rightarrow> 'x solver \<Rightarrow> 'x solver" where
  "insertVarOrder x s =
     (if x \<notin> order_heap s \<and> decision_var s x
      then s\<lparr>order_heap := insert x (order_heap s)\<rparr>
      else s)"

text \<open>
  \<open>std::vector::resize\<close>: a shorter size cuts the vector, a longer one appends
  default-constructed elements.
\<close>

definition resize_vec :: "'a \<Rightarrow> nat \<Rightarrow> 'a list \<Rightarrow> 'a list" where
  "resize_vec d n xs = take n xs @ replicate (n - length xs) d"

text \<open>
  The body of the loop of \<open>cancelUntil\<close>, run on the trail entries from the top of the
  trail down to position \<open>trail_lim[level]\<close>; the list argument holds these entries in
  the order the loop visits them.
\<close>

fun cancel_loop :: "Lit list \<Rightarrow> 'x solver \<Rightarrow> error + 'x solver" where
  "cancel_loop [] s = Inr s"
| "cancel_loop (p # ps) s =
     (if value_var s (var p) = l_Undef
      then Inl (AssertionFailed ''value(var) != l_Undef'')
      else cancel_loop ps (insertVarOrder (var p) (s\<lparr>assigns := (assigns s)(var p := l_Undef)\<rparr>)))"

definition cancelUntil :: "nat \<Rightarrow> 'x solver \<Rightarrow> error + 'x solver" where
  "cancelUntil lvl s =
     (if decisionLevel s > lvl then
        (case cancel_loop (rev (drop (trail_lim s ! lvl) (trail s))) s of
           Inl e \<Rightarrow> Inl e
         | Inr s1 \<Rightarrow>
             Inr (s1\<lparr>qhead := trail_lim s1 ! lvl,
                     trail := resize_vec lit_Undef (trail_lim s1 ! lvl) (trail s1),
                     trail_lim := take lvl (trail_lim s1)\<rparr>))
      else Inr s)"

section \<open>Code reached through classes that are not among the sources\<close>

text \<open>
  The functions of CommandControl.cpp call into Solver, ThreadControl, the heap, the
  random generator and the agility estimator. What these do is not decided by the
  files at hand, so the model takes them as parameters, collected in one record:
  \<^item> \<open>propagate\<close>: \<open>Solver::propagate(update)\<close>, returning the conflict (or the null
    reason) and the new state;
  \<^item> \<open>pickBranchLit\<close>: the branching heuristic. Its code is in CommandControl.cpp, but
    the literal it picks depends on the random generator and on the order of the
    activity heap; it changes the heap and these generators only, so the parameter
    returns the literal, the new heap content and the new \<open>ext\<close>;
  \<^item> \<open>varBumpActivity\<close>: \<open>Solver::varBumpActivity\<close>, which changes activities only;
  \<^item> \<open>newClauseByThread\<close>: \<open>ThreadControl::newClauseByThread(lits, glue, lastSumConfl)\<close>,
    which publishes a clause and refreshes the conflict count passed by reference;
  \<^item> \<open>getNextCleanLimit\<close>: \<open>ThreadControl::getNextCleanLimit()\<close>;
  \<^item> \<open>agilityBelow\<close>, \<open>agilityTooLow\<close>, \<open>agilityNumTooLow\<close>, \<open>agilityReset\<close>: the
    comparison \<open>agility.getAgility() < conf.agilityLimit\<close> (on doubles),
    \<open>agility.tooLow(n)\<close>, \<open>agility.getNumTooLow()\<close> and \<open>agility.reset()\<close>;
  \<^item> \<open>glueHistoryFastclear\<close>: \<open>glueHistory.fastclear()\<close>;
  \<^item> \<open>historyPush\<close>: the three pushes \<open>avgBranchDepth.push(depth)\<close>,
    \<open>glueHistory.push(glue)\<close> and \<open>conflSizeHist.push(size)\<close>;
  \<^item> \<open>learnClause\<close>: the part of \<open>handle_conflict\<close> after the backjump (sorting
    with PolaritySorter, fetching the clause from the coordinator, attaching it,
    enqueueing its first literal, decaying the activities), which goes through Solver
    and ThreadControl throughout; it gets the learnt clause, the glue and the
    backtrack level;
  \<^item> \<open>handleNewBin\<close>, \<open>handleNewLong\<close>: the integration of an imported binary or long
    clause, which attaches through \<open>Solver::attachBinClause\<close> and
    \<open>Solver::attachClause\<close>.
\<close>

record 'x collab =
  propagate :: "bool \<Rightarrow> 'x solver \<Rightarrow> PropBy \<times> 'x solver"
  pickBranchLit :: "'x solver \<Rightarrow> Lit \<times> nat set \<times> 'x"
  varBumpActivity :: "nat \<Rightarrow> 'x \<Rightarrow> 'x"
  newClauseByThread :: "Lit list \<Rightarrow> nat \<Rightarrow> nat \<Rightarrow> 'x \<Rightarrow> nat \<times> 'x"
  getNextCleanLimit :: "'x \<Rightarrow> nat"
  agilityBelow :: "'x \<Rightarrow> bool"
  agilityTooLow :: "nat \<Rightarrow> 'x \<Rightarrow> 'x"
  agilityNumTooLow :: "'x \<Rightarrow> nat"
  agilityReset :: "'x \<Rightarrow> 'x"
  glueHistoryFastclear :: "'x \<Rightarrow> 'x"
  historyPush :: "nat \<Rightarrow> nat \<Rightarrow> nat \<Rightarrow> 'x \<Rightarrow> 'x"
  learnClause :: "Lit list \<Rightarrow> nat \<Rightarrow> nat \<Rightarrow> 'x solver \<Rightarrow> error + 'x solver"
  handleNewBin :: "Lit \<times> Lit \<times> bool \<Rightarrow> 'x solver \<Rightarrow> error + bool \<times> 'x solver"
  handleNewLong :: "nat \<Rightarrow> 'x solver \<Rightarrow> error + bool \<times> 'x solver"

section \<open>analyzeFinal\<close>

text \<open>
  One pass of the loop of \<open>analyzeFinal\<close> over the trail entries from the top of the
  trail down to \<open>trail_lim[0]\<close> (the list argument, in the order visited). The loop
  stops (\<open>break\<close>) at the first entry whose variable is not marked.
\<close>

definition mark_seen :: "Lit \<Rightarrow> 'x solver \<Rightarrow> 'x solver" where
  "mark_seen q s =
     (if level (varData s (var q)) > 0 then s\<lparr>seen := (seen s)(var q := True)\<rparr> else s)"

fun analyzeFinal_loop :: "Lit list \<Rightarrow> Lit list \<Rightarrow> 'x solver \<Rightarrow> error + Lit list \<times> 'x solver" where
  "analyzeFinal_loop [] out s = Inr (out, s)"
| "analyzeFinal_loop (t # ts) out s =
     (let x = var t in
      if \<not> seen s x then Inr (out, s)
      else
        (case reason (varData s x) of
           null_clause_t \<Rightarrow>
             if level (varData s x) > 0
             then analyzeFinal_loop ts (out @ [lit_neg t]) (s\<lparr>seen := (seen s)(x := False)\<rparr>)
             else Inl (AssertionFailed ''varData[x].level > 0'')
         | tertiary_t lit1 lit2 \<Rightarrow>
             (let s1 = mark_seen lit1 (mark_seen lit2 s)
              in analyzeFinal_loop ts out (s1\<lparr>seen := (seen s1)(x := False)\<rparr>))
         | binary_t lit1 \<Rightarrow>
             (let s1 = mark_seen lit1 s
              in analyzeFinal_loop ts out (s1\<lparr>seen := (seen s1)(x := False)\<rparr>))
         | clause_t offs w \<Rightarrow>
             (let s1 = foldl (\<lambda>a q. mark_seen q a) s (drop 1 (lits (clAllocator s offs)))
              in analyzeFinal_loop ts out (s1\<lparr>seen := (seen s1)(x := False)\<rparr>))))"

text \<open>
  \<open>analyzeFinal(p, conflict)\<close>: the only call passes the member \<open>conflict\<close> as the
  output vector, so the result is stored there.
\<close>

definition analyzeFinal :: "Lit \<Rightarrow> 'x solver \<Rightarrow> error + 'x solver" where
  "analyzeFinal p s =
     (if decisionLevel s = 0 then Inr (s\<lparr>conflict := [p]\<rparr>)
      else
        (case analyzeFinal_loop (rev (drop (trail_lim s ! 0) (trail s))) [p]
                (s\<lparr>seen := (seen s)(var p := True)\<rparr>) of
           Inl e \<Rightarrow> Inl e
         | Inr (out, s1) \<Rightarrow> Inr (s1\<lparr>seen := (seen s1)(var p := False), conflict := out\<rparr>)))"

section \<open>new_decision\<close>

text \<open>
  The loop over the assumptions. It ends in one of three ways: \<open>return l_False\<close> after
  \<open>analyzeFinal\<close> (the first component is \<open>Some l_False\<close>), \<open>break\<close> with an
  assumption as \<open>next\<close>, or the loop condition fails with \<open>next\<close> still \<open>lit_Undef\<close>.
\<close>

function assumption_loop :: "'x solver \<Rightarrow> error + lbool option \<times> Lit \<times> 'x solver" where
  "assumption_loop s =
     (if decisionLevel s < length (assumptions s) then
        (let p = assumptions s ! decisionLevel s in
         if value_lit s p = l_True then assumption_loop (newDecisionLevel s)
         else if value_lit s p = l_False then
           (case analyzeFinal (lit_neg p) s of
              Inl e \<Rightarrow> Inl e
            | Inr s1 \<Rightarrow> Inr (Some l_False, lit_Undef, s1))
         else Inr (None, p, s))
      else Inr (None, lit_Undef, s))"
  by pat_completeness auto
termination
  by (relation "measure (\<lambda>s. length (assumptions s) - decisionLevel s)")
     (auto simp: newDecisionLevel_def decisionLevel_def)

declare assumption_loop.simps [simp del]

definition decide_on :: "Lit \<Rightarrow> 'x solver \<Rightarrow> error + lbool \<times> 'x solver" where
  "decide_on next s =
     (if value_lit s next \<noteq> l_Undef then Inl (AssertionFailed ''value(next) == l_Undef'')
      else Inr (l_Undef, enqueue next null_clause_t (newDecisionLevel s)))"

definition new_decision :: "'x collab \<Rightarrow> 'x solver \<Rightarrow> error + lbool \<times> 'x solver" where
  "new_decision K s =
     (case assumption_loop s of
        Inl e \<Rightarrow> Inl e
      | Inr (Some r, next, s1) \<Rightarrow> Inr (r, s1)
      | Inr (None, next, s1) \<Rightarrow>
          if next = lit_Undef then
            (let s2 = s1\<lparr>decisions := decisions s1 + 1\<rparr>;
                 (next2, heap, x) = pickBranchLit K s2;
                 s3 = s2\<lparr>order_heap := heap, ext := x\<rparr>
             in if next2 = lit_Undef then Inr (l_True, s3) else decide_on next2 s3)
          else decide_on next s1)"

section \<open>minimiseLearntFurther\<close>

text \<open>
  Here \<open>seen\<close> is indexed by \<open>toInt\<close> of a literal. The first loop marks the literals
  of the clause.
\<close>

definition mark_lits :: "Lit list \<Rightarrow> (nat \<Rightarrow> bool) \<Rightarrow> (nat \<Rightarrow> bool)" where
  "mark_lits cl sn = foldl (\<lambda>a q. a(toInt q := True)) sn cl"

text \<open>The cache loop: every cached literal \<open>q\<close> clears the mark of \<open>~q\<close>.\<close>

definition minim_cache :: "Lit list \<Rightarrow> (nat \<Rightarrow> bool) \<Rightarrow> (nat \<Rightarrow> bool)" where
  "minim_cache cache sn = foldl (\<lambda>a q. a(toInt (lit_neg q) := False)) sn cache"

text \<open>The body of the watch-list loop, for one watch.\<close>

fun minim_watch :: "(nat \<Rightarrow> bool) \<Rightarrow> Watched \<Rightarrow> (nat \<Rightarrow> bool)" where
  "minim_watch sn (BinaryWatch other learnt) = sn(toInt (lit_neg other) := False)"
| "minim_watch sn (TriWatch other other2) =
     (let sn1 = (if sn (toInt other2) then sn(toInt (lit_neg other) := False) else sn)
      in if sn1 (toInt other) then sn1(toInt (lit_neg other2) := False) else sn1)"
| "minim_watch sn (LongWatch offs blocker) = sn"

text \<open>The body of the loop over the literals of the clause.\<close>

definition minim_lit :: "'x solver \<Rightarrow> (nat \<Rightarrow> bool) \<Rightarrow> Lit \<Rightarrow> (nat \<Rightarrow> bool)" where
  "minim_lit s sn l =
     (if \<not> sn (toInt l) then sn
      else foldl minim_watch (minim_cache (implCache s (toInt l)) sn) (watches s (toInt (lit_neg l))))"

text \<open>
  The marks after the first two loops: the literals of the clause are marked, then each
  literal that is still marked when its turn comes clears marks through the cache and
  the watch list.
\<close>

definition minim_seen :: "'x solver \<Rightarrow> Lit list \<Rightarrow> (nat \<Rightarrow> bool)" where
  "minim_seen s cl = foldl (minim_lit s) (mark_lits cl (seen s)) cl"

text \<open>
  The last loop copies the marked literals to the front (iterator \<open>j\<close>, here the list
  \<open>kept\<close>), counts the others, and clears the mark of every literal it has visited.
\<close>

fun compact :: "Lit list \<Rightarrow> Lit list \<Rightarrow> nat \<Rightarrow> (nat \<Rightarrow> bool) \<Rightarrow> Lit list \<times> nat \<times> (nat \<Rightarrow> bool)" where
  "compact [] kept removedLits sn = (kept, removedLits, sn)"
| "compact (q # qs) kept removedLits sn =
     (if sn (toInt q)
      then compact qs (kept @ [q]) removedLits (sn(toInt q := False))
      else compact qs kept (removedLits + 1) (sn(toInt q := False)))"

definition minimiseLearntFurther ::
    "Lit list \<Rightarrow> nat \<Rightarrow> 'x solver \<Rightarrow> error + Lit list \<times> 'x solver" where
  "minimiseLearntFurther cl glue s =
     (if \<not> doCache (conf s) then Inl (AssertionFailed ''conf.doCache'')
      else
        (let s1 = s\<lparr>furtherClMinim := furtherClMinim s + 1\<rparr>;
             sn2 = minim_seen s1 cl
         in if cl = [] then Inl (OutOfBounds ''cl[0]'')
            else
              (let sn3 = sn2(toInt (cl ! 0) := True);
                   (kept, removedLits, sn4) = compact cl [] 0 sn3
               in Inr (kept,
                    s1\<lparr>seen := sn4,
                       numShrinkedClause := numShrinkedClause s1 + (if removedLits > 0 then 1 else 0),
                       numShrinkedClauseLits := numShrinkedClauseLits s1 + removedLits\<rparr>))))"

section \<open>analyze\<close>

text \<open>
  Modelled from the spec: \<open>Solver::calcNBLevels\<close> (Solver.h is not among the sources).
  The glue of a clause is the number of distinct decision levels among its literals.
\<close>

definition calcNBLevels :: "'x solver \<Rightarrow> Lit list \<Rightarrow> nat" where
  "calcNBLevels s ps = length (remdups (map (\<lambda>q. level (varData s (var q))) ps))"

text \<open>
  The block that \<open>analyze\<close> repeats for every literal \<open>q\<close> of the reason: an unmarked
  variable above level 0 is bumped and marked; at the current level it counts for
  \<open>pathC\<close>, otherwise the literal joins the learnt clause. Here \<open>seen\<close> is indexed by
  the variable.
\<close>

definition analyze_add ::
    "'x collab \<Rightarrow> Lit \<Rightarrow> 'x solver \<times> int \<times> Lit list \<Rightarrow> 'x solver \<times> int \<times> Lit list" where
  "analyze_add K q a =
     (case a of (s, pathC, out_learnt) \<Rightarrow>
        (let v = var q in
         if level (varData s v) > 0 \<and> \<not> seen s v then
           (let s1 = s\<lparr>seen := (seen s)(v := True), ext := varBumpActivity K v (ext s)\<rparr>
            in if level (varData s v) = decisionLevel s
               then (s1, pathC + 1, out_learnt)
               else (s1, pathC, out_learnt @ [q]))
         else a))"

text \<open>
  The loop over a long clause; \<open>skip\<close> is \<open>p != lit_Undef\<close>, \<open>pos\<close> the position of the
  propagated literal, \<open>j\<close> the running index.
\<close>

fun analyze_clause ::
    "'x collab \<Rightarrow> bool \<Rightarrow> nat \<Rightarrow> nat \<Rightarrow> Lit list \<Rightarrow> 'x solver \<times> int \<times> Lit list
     \<Rightarrow> error + 'x solver \<times> int \<times> Lit list" where
  "analyze_clause K skip pos j [] a = Inr a"
| "analyze_clause K skip pos j (q # qs) a =
     (if skip \<and> j = pos then analyze_clause K skip pos (j + 1) qs a
      else if level (varData (fst a) (var q)) > decisionLevel (fst a)
      then Inl (AssertionFailed ''varData[var].level <= decisionLevel()'')
      else analyze_clause K skip pos (j + 1) qs (analyze_add K q a))"

text \<open>The \<open>switch\<close> on the type of the reason; the ternary case falls through.\<close>

definition analyze_binary ::
    "'x collab \<Rightarrow> Lit \<Rightarrow> Lit \<Rightarrow> 'x solver \<times> int \<times> Lit list \<Rightarrow> 'x solver \<times> int \<times> Lit list" where
  "analyze_binary K p other a =
     analyze_add K other
       (if p = lit_Undef then analyze_add K (failBinLit (fst a)) a else a)"

fun analyze_reason ::
    "'x collab \<Rightarrow> Lit \<Rightarrow> PropBy \<Rightarrow> 'x solver \<times> int \<times> Lit list
     \<Rightarrow> error + 'x solver \<times> int \<times> Lit list" where
  "analyze_reason K p (tertiary_t other other2) a =
     Inr (analyze_binary K p other (analyze_add K other2 a))"
| "analyze_reason K p (binary_t other) a = Inr (analyze_binary K p other a)"
| "analyze_reason K p (clause_t offs w) a =
     (let cl = clAllocator (fst a) offs
      in analyze_clause K (p \<noteq> lit_Undef) (clauseData (fst a) (getNum cl) w) 0 (lits cl) a)"
| "analyze_reason K p null_clause_t a =
     Inl (AssertionFailed ''false && Error in conflict analysis'')"

text \<open>
  \<open>while (!seen[trail[index--].var()]);\<close> walks down the trail to the next marked
  variable. The argument is \<open>index + 1\<close>; the result is the position of the literal
  found, which is \<open>index + 1\<close> after the loop. Running below position 0 reads outside
  the trail.
\<close>

fun next_seen :: "'x solver \<Rightarrow> nat \<Rightarrow> nat option" where
  "next_seen s 0 = None"
| "next_seen s (Suc i) = (if seen s (var (trail s ! i)) then Some i else next_seen s i)"

function analyze_loop ::
    "'x collab \<Rightarrow> PropBy \<Rightarrow> Lit \<Rightarrow> nat \<Rightarrow> int \<Rightarrow> Lit list \<Rightarrow> 'x solver
     \<Rightarrow> error + Lit \<times> int \<times> Lit list \<times> 'x solver" where
  "analyze_loop K confl p idx pathC out_learnt s =
     (case analyze_reason K p confl (s, pathC, out_learnt) of
        Inl e \<Rightarrow> Inl e
      | Inr (s1, pathC1, out1) \<Rightarrow>
          (case next_seen s1 idx of
             None \<Rightarrow> Inl (OutOfBounds ''trail[index]'')
           | Some i \<Rightarrow>
               (let p' = trail s1 ! i;
                    confl' = reason (varData s1 (var p'));
                    s2 = s1\<lparr>seen := (seen s1)(var p' := False)\<rparr>;
                    pathC2 = pathC1 - 1
                in if pathC2 > 0 then analyze_loop K confl' p' i pathC2 out1 s2
                   else Inr (p', pathC2, out1, s2))))"
  by pat_completeness auto
termination
proof -
  have less: "next_seen s n = Some i \<Longrightarrow> i < n" for s :: "'x solver" and n i
    by (induction n) (auto split: if_splits)
  show ?thesis
    by (relation "measure (\<lambda>(K, confl, p, idx, pathC, out_learnt, s). idx)")
       (auto dest: less)
qed

declare analyze_loop.simps [simp del]

text \<open>
  The search for the backtrack level: the loop keeps in \<open>max_i\<close> the first position
  of the highest level among the positions from 1 on, then swaps it with position 1.
\<close>

definition find_max_i :: "'x solver \<Rightarrow> Lit list \<Rightarrow> nat" where
  "find_max_i s out_learnt =
     foldl (\<lambda>max_i i.
              if level (varData s (var (out_learnt ! i))) > level (varData s (var (out_learnt ! max_i)))
              then i else max_i)
       1 [2..<length out_learnt]"

definition swap_vec :: "nat \<Rightarrow> nat \<Rightarrow> 'a list \<Rightarrow> 'a list" where
  "swap_vec i j xs = xs[i := xs ! j, j := xs ! i]"

definition find_btlevel :: "'x solver \<Rightarrow> Lit list \<Rightarrow> Lit list \<times> nat" where
  "find_btlevel s out_learnt =
     (if length out_learnt \<le> 1 then (out_learnt, 0)
      else
        (let out1 = swap_vec (find_max_i s out_learnt) 1 out_learnt
         in (out1, level (varData s (var (out1 ! 1))))))"

text \<open>
  The first part of \<open>analyze\<close>, up to the point where the marks are cleared and the
  glue is computed for the first time: the resolution loop, the literal at position 0,
  the assertion on \<open>pathC\<close>, the statistics and the clearing of \<open>seen\<close>.
\<close>

definition analyze_firstUIP ::
    "'x collab \<Rightarrow> PropBy \<Rightarrow> Lit list \<Rightarrow> 'x solver \<Rightarrow> error + Lit list \<times> 'x solver" where
  "analyze_firstUIP K confl out_learnt s =
     (if out_learnt \<noteq> [] then Inl (AssertionFailed ''out_learnt.empty()'')
      else if decisionLevel s = 0 then Inl (AssertionFailed ''decisionLevel() > 0'')
      else
        (case analyze_loop K confl lit_Undef (length (trail s)) 0 [lit_Undef] s of
           Inl e \<Rightarrow> Inl e
         | Inr (p, pathC, out0, s1) \<Rightarrow>
             (let out1 = out0[0 := lit_neg p] in
              if pathC \<noteq> 0 then Inl (AssertionFailed ''pathC == 0'')
              else
                (let s2 = s1\<lparr>max_literals := max_literals s1 + length out1, toClear := out1\<rparr>;
                     s3 = s2\<lparr>seen := foldl (\<lambda>a q. a(var q := False)) (seen s2) (toClear s2),
                             toClear := []\<rparr>
                 in Inr (out1, s3)))))"

text \<open>
  \<open>analyze(confl, out_learnt, out_btlevel, glue)\<close>; the result holds the three output
  parameters and the new state. The call of \<open>minimiseLearntFurther\<close> stands where the
  source has it, outside of the condition that is commented out there; the glue
  computed before the call is overwritten after it.
\<close>

definition analyze ::
    "'x collab \<Rightarrow> PropBy \<Rightarrow> Lit list \<Rightarrow> 'x solver \<Rightarrow> error + Lit list \<times> nat \<times> nat \<times> 'x solver" where
  "analyze K confl out_learnt s =
     (case analyze_firstUIP K confl out_learnt s of
        Inl e \<Rightarrow> Inl e
      | Inr (out1, s3) \<Rightarrow>
          (case minimiseLearntFurther out1 (calcNBLevels s3 out1) s3 of
             Inl e \<Rightarrow> Inl e
           | Inr (out2, s4) \<Rightarrow>
               (let glue = calcNBLevels s4 out2;
                    s5 = s4\<lparr>tot_literals := tot_literals s4 + length out2\<rparr>;
                    (out3, out_btlevel) = find_btlevel s5 out2
                in Inr (out3, out_btlevel, glue, s5))))"

text \<open>
  What the resolution loop leaves alone: the configuration and the counter of calls of
  \<open>minimiseLearntFurther\<close>.
\<close>

definition same_conf :: "'x solver \<Rightarrow> 'x solver \<Rightarrow> bool" where
  "same_conf s s' = (conf s' = conf s \<and> furtherClMinim s' = furtherClMinim s)"

section \<open>addOtherClauses\<close>

text \<open>
  The loop over the imported units. The result is \<open>False\<close> when the loop leaves the
  function with \<open>return false\<close>, \<open>True\<close> when it runs to its end.
\<close>

fun addUnits :: "Lit list \<Rightarrow> 'x solver \<Rightarrow> error + bool \<times> 'x solver" where
  "addUnits [] s = Inr (True, s)"
| "addUnits (lit # rest) s =
     (if value_lit s lit = l_True \<and> level (varData s (var lit)) = 0 then addUnits rest s
      else
        (case cancelUntil 0 s of
           Inl e \<Rightarrow> Inl e
         | Inr s1 \<Rightarrow>
             if value_lit s1 lit = l_Undef then addUnits rest (enqueue lit null_clause_t s1)
             else if value_lit s1 lit \<noteq> l_False
             then Inl (AssertionFailed ''value(lit) == l_False'')
             else Inr (False, s1)))"

text \<open>
  The loops over the imported binary and long clauses; each hands its clause to a
  handler and leaves with \<open>return false\<close> when the handler fails.
\<close>

fun addEach ::
    "('c \<Rightarrow> 'x solver \<Rightarrow> error + bool \<times> 'x solver) \<Rightarrow> 'c list \<Rightarrow> 'x solver
     \<Rightarrow> error + bool \<times> 'x solver" where
  "addEach h [] s = Inr (True, s)"
| "addEach h (c # cs) s =
     (case h c s of
        Inl e \<Rightarrow> Inl e
      | Inr (r, s1) \<Rightarrow> if \<not> r then Inr (False, s1) else addEach h cs s1)"

definition addOtherClauses :: "'x collab \<Rightarrow> 'x solver \<Rightarrow> error + bool \<times> 'x solver" where
  "addOtherClauses K s =
     (if \<not> ok s then Inl (AssertionFailed ''ok'')
      else
        (case addUnits (unitToAdd s) s of
           Inl e \<Rightarrow> Inl e
         | Inr (r1, s1) \<Rightarrow>
             if \<not> r1 then Inr (False, s1)
             else
               (let s2 = s1\<lparr>unitToAdd := []\<rparr> in
                case addEach (handleNewBin K) (binToAdd s2) s2 of
                  Inl e \<Rightarrow> Inl e
                | Inr (r2, s3) \<Rightarrow>
                    if \<not> r2 then Inr (False, s3)
                    else
                      (let s4 = s3\<lparr>binToAdd := []\<rparr> in
                       case addEach (handleNewLong K) (longToAdd s4) s4 of
                         Inl e \<Rightarrow> Inl e
                       | Inr (r3, s5) \<Rightarrow>
                           if \<not> r3 then Inr (False, s5)
                           else Inr (True, s5\<lparr>longToAdd := []\<rparr>)))))"

text \<open>
  Two results of \<open>addOtherClauses\<close> agree up to the unit queue when they are the same
  error, or the same flag with the same state, where after \<open>return false\<close> the content
  of \<open>unitToAdd\<close> (which is only cleared on the way to success) is not compared.
\<close>

definition up_to_unit_queue :: "error + bool \<times> 'x solver \<Rightarrow> error + bool \<times> 'x solver" where
  "up_to_unit_queue X =
     (case X of
        Inl e \<Rightarrow> Inl e
      | Inr (r, t) \<Rightarrow> Inr (r, if r then t else t\<lparr>unitToAdd := []\<rparr>))"

section \<open>handle_conflict and search\<close>




text \<open>\<open>addToThreads\<close> publishes the trail entries from \<open>oldTrailSize\<close> on as units.\<close>

definition addToThreads :: "'x collab \<Rightarrow> nat \<Rightarrow> 'x solver \<Rightarrow> 'x solver" where
  "addToThreads K oldTrailSize s =
     foldl (\<lambda>a t.
              (case newClauseByThread K [t] 1 (lastSumConfl a) (ext a) of
                 (n, x) \<Rightarrow> a\<lparr>lastSumConfl := n, ext := x, lastUnit := lastUnit a + 1\<rparr>))
       s (drop oldTrailSize (trail s))"




section \<open>Simplifier::subset (Simplifier.h)\<close>

text \<open>
  \<open>seen\<close> is a \<open>vec<bool>\<close> passed by the caller, a list here; an index at or beyond
  its size is outside the vector. \<open>set_seen b B\<close> is the loop
  \<open>for i: seen[B[i].toInt()] = b\<close>.
\<close>

fun set_seen :: "bool \<Rightarrow> Lit list \<Rightarrow> bool list \<Rightarrow> error + bool list" where
  "set_seen b [] sn = Inr sn"
| "set_seen b (q # qs) sn =
     (if toInt q < length sn then set_seen b qs (sn[toInt q := b])
      else Inl (OutOfBounds ''seen[B[i].toInt()]''))"

text \<open>The loop over \<open>A\<close>: \<open>False\<close> at the first literal that is not marked.\<close>

fun all_seen :: "Lit list \<Rightarrow> bool list \<Rightarrow> error + bool" where
  "all_seen [] sn = Inr True"
| "all_seen (q # qs) sn =
     (if toInt q < length sn
      then (if \<not> sn ! toInt q then Inr False else all_seen qs sn)
      else Inl (OutOfBounds ''seen[A[i].toInt()]''))"

definition Simplifier_subset :: "Lit list \<Rightarrow> Lit list \<Rightarrow> bool list \<Rightarrow> error + bool \<times> bool list" where
  "Simplifier_subset A B sn =
     (case set_seen True B sn of
        Inl e \<Rightarrow> Inl e
      | Inr sn1 \<Rightarrow>
          (case all_seen A sn1 of
             Inl e \<Rightarrow> Inl e
           | Inr r \<Rightarrow>
               (case set_seen False B sn1 of
                  Inl e \<Rightarrow> Inl e
                | Inr sn2 \<Rightarrow> Inr (r, sn2))))"

section \<open>States reachable during search\<close>

text \<open>
  The trail and the stack of trail limits change in three ways during search: a
  literal is enqueued (by propagation, by a decision, when a learnt or imported clause
  is attached), \<open>new_decision\<close> opens decision levels, and \<open>cancelUntil\<close> backtracks.
  Search starts at decision level 0. Every other step (analysis, counters, watch
  lists) leaves both vectors alone.
\<close>

inductive reachable :: "'x collab \<Rightarrow> 'x solver \<Rightarrow> bool" for K :: "'x collab" where
  start: "trail_lim s = [] \<Longrightarrow> reachable K s"
| enqueued: "reachable K s \<Longrightarrow> reachable K (enqueue p from s)"
| decided: "reachable K s \<Longrightarrow> new_decision K s = Inr (r, s') \<Longrightarrow> reachable K s'"
| cancelled: "reachable K s \<Longrightarrow> cancelUntil lvl s = Inr s' \<Longrightarrow> reachable K s'"
| other: "reachable K s \<Longrightarrow> trail s' = trail s \<Longrightarrow> trail_lim s' = trail_lim s \<Longrightarrow> reachable K s'"

text \<open>
  The invariant of the two vectors: the limits are sorted (not strictly: a dummy level
  holds no literal) and none lies beyond the end of the trail.
\<close>

definition lim_ok :: "'x solver \<Rightarrow> bool" where
  "lim_ok s = (sorted (trail_lim s) \<and> (\<forall>n\<in>set (trail_lim s). n \<le> length (trail s)))"

section \<open>Example states\<close>

text \<open>A worker with nothing assigned, no clauses, and every variable a decision variable.\<close>

definition solver0 :: "unit solver" where
  "solver0 =
     \<lparr>conf = \<lparr>doCache = True, doMinimLearntMore = True, doAlwaysFMinim = False,
              doPrintConflDot = False, numTooLowAgilitiesLimit = 10, verbosity = 0\<rparr>,
      ok = True,
      assigns = (\<lambda>v. l_Undef),
      varData = (\<lambda>v. \<lparr>level = 0, reason = null_clause_t, elimed = False\<rparr>),
      trail = [], trail_lim = [], qhead = 0,
      seen = (\<lambda>i. False), toClear = [], failBinLit = lit_Undef,
      watches = (\<lambda>i. []),
      clAllocator = (\<lambda>offs. \<lparr>lits = [], getNum = 0\<rparr>),
      clauseData = (\<lambda>n w. 0),
      implCache = (\<lambda>i. []),
      decision_var = (\<lambda>v. True),
      order_heap = {},
      assumptions = [], conflict = [],
      unitToAdd = [], binToAdd = [], longToAdd = [],
      lastSumConfl = 0, lastUnit = 0, numConflicts = 0, numRestarts = 0, decisions = 0,
      max_literals = 0, tot_literals = 0, furtherClMinim = 0,
      numShrinkedClause = 0, numShrinkedClauseLits = 0,
      needToInterrupt = False,
      ext = ()\<rparr>"

text \<open>
  Collaborators that do nothing: propagation finds no conflict and assigns nothing, the
  heap is empty when a branching literal is asked for, imported clauses attach without
  effect.
\<close>

definition K0 :: "unit collab" where
  "K0 =
     \<lparr>propagate = (\<lambda>u s. (null_clause_t, s)),
      pickBranchLit = (\<lambda>s. (lit_Undef, order_heap s, ext s)),
      varBumpActivity = (\<lambda>v x. x),
      newClauseByThread = (\<lambda>ps glue n x. (n + 1, x)),
      getNextCleanLimit = (\<lambda>x. 1000),
      agilityBelow = (\<lambda>x. False),
      agilityTooLow = (\<lambda>n x. x),
      agilityNumTooLow = (\<lambda>x. 0),
      agilityReset = (\<lambda>x. x),
      glueHistoryFastclear = (\<lambda>x. x),
      historyPush = (\<lambda>depth glue size x. x),
      learnClause = (\<lambda>cl glue lvl s. Inr s),
      handleNewBin = (\<lambda>c s. Inr (True, s)),
      handleNewLong = (\<lambda>c s. Inr (True, s))\<rparr>"



text \<open>
  \<open>x0\<close> decided at level 1 and \<open>x1\<close> implied at level 1 by the binary clause
  \<open>x1 \<or> \<not>x0\<close>; \<open>x1\<close> is not a decision variable.
\<close>

definition ex_level1 :: "unit solver" where
  "ex_level1 =
     solver0\<lparr>assigns := (\<lambda>v. if v = 0 \<or> v = 1 then l_True else l_Undef),
             varData := (\<lambda>v. if v = 0 then \<lparr>level = 1, reason = null_clause_t, elimed = False\<rparr>
                              else if v = 1 then \<lparr>level = 1, reason = binary_t (Lit 0 True), elimed = False\<rparr>
                              else \<lparr>level = 0, reason = null_clause_t, elimed = False\<rparr>),
             trail := [Lit 0 False, Lit 1 False],
             trail_lim := [0],
             qhead := 2,
             decision_var := (\<lambda>v. v \<noteq> 1)\<rparr>"

text \<open>
  \<open>x0\<close> is a unit fact at level 0, and the caller assumes \<open>x0\<close> and \<open>x1\<close>.
\<close>

definition ex_assumed :: "unit solver" where
  "ex_assumed =
     solver0\<lparr>assigns := (\<lambda>v. if v = 0 then l_True else l_Undef),
             trail := [Lit 0 False],
             qhead := 1,
             assumptions := [Lit 0 False, Lit 1 False]\<rparr>"

text \<open>
  The caller assumes \<open>x0\<close> and \<open>x1\<close>; \<open>x0\<close> has been decided at level 1 and the
  binary clause \<open>\<not>x1 \<or> \<not>x0\<close> has made \<open>x1\<close> False.
\<close>

definition ex_assumed_conflict :: "unit solver" where
  "ex_assumed_conflict =
     solver0\<lparr>assigns := (\<lambda>v. if v = 0 then l_True else if v = 1 then l_False else l_Undef),
             varData := (\<lambda>v. if v = 0 then \<lparr>level = 1, reason = null_clause_t, elimed = False\<rparr>
                              else if v = 1 then \<lparr>level = 1, reason = binary_t (Lit 0 True), elimed = False\<rparr>
                              else \<lparr>level = 0, reason = null_clause_t, elimed = False\<rparr>),
             trail := [Lit 0 False, Lit 1 True],
             trail_lim := [0],
             qhead := 2,
             assumptions := [Lit 0 False, Lit 1 False]\<rparr>"

text \<open>The caller assumes \<open>x1\<close>, and nothing is assigned.\<close>

definition ex_assumed_undef :: "unit solver" where
  "ex_assumed_undef = solver0\<lparr>assumptions := [Lit 1 False]\<rparr>"

text \<open>
  The binary clause \<open>\<not>x0 \<or> x1\<close> is attached: the watch list of \<open>x0\<close> holds the
  other literal \<open>x1\<close>.
\<close>

definition ex_minim :: "unit solver" where
  "ex_minim = solver0\<lparr>watches := (\<lambda>i. if i = 0 then [BinaryWatch (Lit 1 False) False] else [])\<rparr>"

text \<open>
  A conflict at level 3. \<open>x0\<close> is decided at level 1, \<open>x4\<close> at level 2, \<open>x1\<close> at
  level 3; the binary clause \<open>x2 \<or> \<not>x1\<close> implies \<open>x2\<close>, the long clause
  \<open>x3 \<or> \<not>x2 \<or> \<not>x0 \<or> \<not>x4\<close> (at offset 7, number 5, watched at positions 0 and 1)
  implies \<open>x3\<close>, and the binary clause \<open>\<not>x3 \<or> \<not>x2\<close> is falsified: propagation
  reports the reason \<open>binary_t (\<not>x3)\<close> with \<open>failBinLit = \<not>x2\<close>.
\<close>

definition ex_conflict :: "unit solver" where
  "ex_conflict =
     solver0\<lparr>assigns := (\<lambda>v. if v \<le> 4 then l_True else l_Undef),
             varData := (\<lambda>v.
                if v = 0 then \<lparr>level = 1, reason = null_clause_t, elimed = False\<rparr>
                else if v = 4 then \<lparr>level = 2, reason = null_clause_t, elimed = False\<rparr>
                else if v = 1 then \<lparr>level = 3, reason = null_clause_t, elimed = False\<rparr>
                else if v = 2 then \<lparr>level = 3, reason = binary_t (Lit 1 True), elimed = False\<rparr>
                else if v = 3 then \<lparr>level = 3, reason = clause_t 7 0, elimed = False\<rparr>
                else \<lparr>level = 0, reason = null_clause_t, elimed = False\<rparr>),
             trail := [Lit 0 False, Lit 4 False, Lit 1 False, Lit 2 False, Lit 3 False],
             trail_lim := [0, 1, 2],
             qhead := 5,
             failBinLit := Lit 2 True,
             clAllocator := (\<lambda>offs. if offs = 7
                then \<lparr>lits = [Lit 3 False, Lit 2 True, Lit 0 True, Lit 4 True], getNum = 5\<rparr>
                else \<lparr>lits = [], getNum = 0\<rparr>),
             clauseData := (\<lambda>n w. if n = 5 \<and> w = 1 then 1 else 0)\<rparr>"

text \<open>The same conflict in a worker configured without the implication cache.\<close>

definition ex_conflict_nocache :: "unit solver" where
  "ex_conflict_nocache = ex_conflict\<lparr>conf := (conf ex_conflict)\<lparr>doCache := False\<rparr>\<rparr>"

section \<open>cancelUntil: what it undoes\<close>

lemma insertVarOrder_eq:
  "insertVarOrder x s = s\<lparr>order_heap := order_heap s \<union> (if decision_var s x then {x} else {})\<rparr>"
  by (auto simp: insertVarOrder_def insert_absorb)

lemma cancel_loop_result:
  "distinct (map var ps) \<Longrightarrow> \<forall>p\<in>set ps. assigns s (var p) \<noteq> l_Undef \<Longrightarrow>
   cancel_loop ps s =
     Inr (s\<lparr>assigns := (\<lambda>v. if v \<in> var ` set ps then l_Undef else assigns s v),
            order_heap := order_heap s \<union> {v \<in> var ` set ps. decision_var s v}\<rparr>)"
proof (induction ps arbitrary: s)
  case Nil
  then show ?case by simp
next
  case (Cons p ps)
  let ?s1 = "insertVarOrder (var p) (s\<lparr>assigns := (assigns s)(var p := l_Undef)\<rparr>)"
  have d: "distinct (map var ps)" and n: "var p \<notin> var ` set ps"
    using Cons.prems(1) by auto
  have a: "\<forall>q\<in>set ps. assigns ?s1 (var q) \<noteq> l_Undef"
    using Cons.prems(2) n by (auto simp: insertVarOrder_eq image_iff)
  have "cancel_loop (p # ps) s = cancel_loop ps ?s1"
    using Cons.prems(2) by (simp add: value_var_def)
  also have "\<dots> = Inr (?s1\<lparr>assigns := (\<lambda>v. if v \<in> var ` set ps then l_Undef else assigns ?s1 v),
            order_heap := order_heap ?s1 \<union> {v \<in> var ` set ps. decision_var ?s1 v}\<rparr>)"
    by (rule Cons.IH [OF d a])
  also have "\<dots> = Inr (s\<lparr>assigns := (\<lambda>v. if v \<in> var ` set (p # ps) then l_Undef else assigns s v),
            order_heap := order_heap s \<union> {v \<in> var ` set (p # ps). decision_var s v}\<rparr>)"
  proof -
    have A: "(\<lambda>v. if v \<in> var ` set ps then l_Undef else assigns ?s1 v) =
             (\<lambda>v. if v \<in> var ` set (p # ps) then l_Undef else assigns s v)"
      by (auto simp: fun_eq_iff insertVarOrder_eq)
    have H: "order_heap ?s1 \<union> {v \<in> var ` set ps. decision_var ?s1 v} =
             order_heap s \<union> {v \<in> var ` set (p # ps). decision_var s v}"
      by (auto simp: insertVarOrder_eq)
    have E: "?s1\<lparr>assigns := X, order_heap := Y\<rparr> = s\<lparr>assigns := X, order_heap := Y\<rparr>" for X Y
      by (simp add: insertVarOrder_eq)
    show ?thesis by (simp only: E A H)
  qed
  finally show ?case .
qed

text \<open>
  C1 (amended). For a level \<open>lvl\<close> below the current decision level, in a state whose
  trail from position \<open>trail_lim[lvl]\<close> on holds assigned variables, each once (so that
  the assertion in the loop holds), \<open>cancelUntil(lvl)\<close> returns and changes exactly
  this: the variables of the trail entries from position \<open>trail_lim[lvl]\<close> on become
  Undef, those among them that are decision variables are in the order heap
  afterwards, the trail is cut to \<open>trail_lim[lvl]\<close> entries, \<open>trail_lim\<close> to \<open>lvl\<close>
  entries, and \<open>qhead\<close> is \<open>trail_lim[lvl]\<close>. Nothing else changes: in particular the
  per-variable data (level and reason) stays as it was, and \<open>cancelUntil\<close> writes no
  saved polarity (\<open>ext\<close> is untouched).
\<close>

theorem cancelUntil_effect:
  assumes "lvl < decisionLevel s"
    and "trail_lim s ! lvl \<le> length (trail s)"
    and "distinct (map var (drop (trail_lim s ! lvl) (trail s)))"
    and "\<forall>p\<in>set (drop (trail_lim s ! lvl) (trail s)). value_var s (var p) \<noteq> l_Undef"
  shows "cancelUntil lvl s =
     Inr (s\<lparr>assigns := (\<lambda>v. if v \<in> var ` set (drop (trail_lim s ! lvl) (trail s))
                             then l_Undef else assigns s v),
            order_heap := order_heap s \<union>
               {v \<in> var ` set (drop (trail_lim s ! lvl) (trail s)). decision_var s v},
            qhead := trail_lim s ! lvl,
            trail := take (trail_lim s ! lvl) (trail s),
            trail_lim := take lvl (trail_lim s)\<rparr>)"
proof -
  let ?ps = "rev (drop (trail_lim s ! lvl) (trail s))"
  have d: "distinct (map var ?ps)" using assms(3) by (simp add: rev_map [symmetric])
  have a: "\<forall>p\<in>set ?ps. assigns s (var p) \<noteq> l_Undef" using assms(4) by (simp add: value_var_def)
  show ?thesis
    using assms(1,2) cancel_loop_result [OF d a]
    by (simp add: cancelUntil_def resize_vec_def)
qed

theorem cancelUntil_effect_witness:
  "0 < decisionLevel ex_level1 \<and>
   trail_lim ex_level1 ! 0 \<le> length (trail ex_level1) \<and>
   distinct (map var (drop (trail_lim ex_level1 ! 0) (trail ex_level1))) \<and>
   list_all (\<lambda>p. value_var ex_level1 (var p) \<noteq> l_Undef) (trail ex_level1) \<and>
   cancelUntil 0 ex_level1 =
     Inr (ex_level1\<lparr>assigns := (\<lambda>v. if v \<in> {0, 1} then l_Undef else assigns ex_level1 v),
            order_heap := {0}, qhead := 0, trail := [], trail_lim := []\<rparr>)"
proof -
  have h1: "0 < decisionLevel ex_level1"
    by (simp add: ex_level1_def decisionLevel_def)
  have h2: "trail_lim ex_level1 ! 0 \<le> length (trail ex_level1)"
    by (simp add: ex_level1_def)
  have h3: "distinct (map var (drop (trail_lim ex_level1 ! 0) (trail ex_level1)))"
    by (simp add: ex_level1_def)
  have h4: "\<forall>p\<in>set (drop (trail_lim ex_level1 ! 0) (trail ex_level1)).
              value_var ex_level1 (var p) \<noteq> l_Undef"
    by (simp add: ex_level1_def value_var_def)
  have d: "trail ex_level1 = [Lit 0 False, Lit 1 False]"
    by (simp add: ex_level1_def)
  have o: "order_heap ex_level1 = {}" "decision_var ex_level1 = (\<lambda>v. v \<noteq> 1)"
    "trail_lim ex_level1 ! 0 = 0"
    by (simp_all add: ex_level1_def solver0_def)
  have "cancelUntil 0 ex_level1 =
     Inr (ex_level1\<lparr>assigns := (\<lambda>v. if v \<in> {0, 1} then l_Undef else assigns ex_level1 v),
            order_heap := {0}, qhead := 0, trail := [], trail_lim := []\<rparr>)"
  proof -
    have c: "{v. (v = 0 \<or> v = Suc 0) \<and> v \<noteq> Suc 0} = {0}" by auto
    show ?thesis
      using cancelUntil_effect [OF h1 h2 h3 h4] by (simp add: d o c)
  qed
  moreover have "list_all (\<lambda>p. value_var ex_level1 (var p) \<noteq> l_Undef) (trail ex_level1)"
    by (simp add: ex_level1_def value_var_def)
  ultimately show ?thesis using h1 h2 h3 by simp
qed

text \<open>
  C1 as stated fails: \<open>x1\<close>, assigned at level 1 with a binary reason, is not a
  decision variable. After \<open>cancelUntil(0)\<close> it is Undef and off the trail, its reason
  is still the binary one, and it is not in the order heap.
\<close>

theorem cancelUntil_keeps_reason_counterexample:
  "decisionLevel ex_level1 = 1 \<and>
   trail ex_level1 ! 1 = Lit 1 False \<and>
   level (varData ex_level1 1) = 1 \<and>
   (case cancelUntil 0 ex_level1 of
      Inl e \<Rightarrow> False
    | Inr s' \<Rightarrow> value_var s' 1 = l_Undef \<and> trail s' = [] \<and>
               reason (varData s' 1) = binary_t (Lit 0 True) \<and>
               \<not> isNULL (reason (varData s' 1)) \<and>
               1 \<notin> order_heap s')"
  by (simp add: ex_level1_def solver0_def cancelUntil_def decisionLevel_def value_var_def
      insertVarOrder_def resize_vec_def isNULL_def)

section \<open>The stack of trail limits\<close>

lemma lim_ok_cong: "trail s' = trail s \<Longrightarrow> trail_lim s' = trail_lim s \<Longrightarrow> lim_ok s' = lim_ok s"
  by (simp add: lim_ok_def)

lemma lim_ok_newDecisionLevel: "lim_ok s \<Longrightarrow> lim_ok (newDecisionLevel s)"
  by (auto simp: lim_ok_def newDecisionLevel_def sorted_append)

lemma lim_ok_enqueue: "lim_ok s \<Longrightarrow> lim_ok (enqueue p from s)"
  by (auto simp: lim_ok_def enqueue_def)

lemma cancel_loop_trail:
  "cancel_loop ps s = Inr s' \<Longrightarrow> trail s' = trail s \<and> trail_lim s' = trail_lim s"
  by (induction ps arbitrary: s) (auto simp: insertVarOrder_def split: if_splits)

lemma lim_ok_cancelUntil:
  assumes "lim_ok s" and "cancelUntil lvl s = Inr s'"
  shows "lim_ok s'"
proof (cases "lvl < decisionLevel s")
  case False
  with assms show ?thesis by (simp add: cancelUntil_def)
next
  case True
  from assms(2) True obtain s1 where
    c: "cancel_loop (rev (drop (trail_lim s ! lvl) (trail s))) s = Inr s1" and
    e: "s' = s1\<lparr>qhead := trail_lim s1 ! lvl,
                trail := resize_vec lit_Undef (trail_lim s1 ! lvl) (trail s1),
                trail_lim := take lvl (trail_lim s1)\<rparr>"
    by (auto simp: cancelUntil_def split: sum.splits)
  from cancel_loop_trail [OF c] have t: "trail s1 = trail s" "trail_lim s1 = trail_lim s"
    by simp_all
  have len: "lvl < length (trail_lim s)" using True by (simp add: decisionLevel_def)
  have srt: "sorted (trail_lim s)" using assms(1) by (simp add: lim_ok_def)
  have b: "trail_lim s ! lvl \<le> length (trail s)"
    using assms(1) len by (simp add: lim_ok_def)
  have "sorted (take lvl (trail_lim s))" using srt by (rule sorted_wrt_take)
  moreover have "n \<le> trail_lim s ! lvl" if "n \<in> set (take lvl (trail_lim s))" for n
  proof -
    from that obtain i where "i < lvl" "n = trail_lim s ! i"
      using len by (auto simp: in_set_conv_nth)
    then show ?thesis using srt len by (simp add: sorted_nth_mono)
  qed
  moreover have "length (resize_vec lit_Undef (trail_lim s ! lvl) (trail s)) = trail_lim s ! lvl"
    using b by (simp add: resize_vec_def)
  ultimately show ?thesis by (simp add: lim_ok_def e t)
qed

lemma analyzeFinal_loop_trail:
  "analyzeFinal_loop ts out s = Inr (out', s') \<Longrightarrow>
     trail s' = trail s \<and> trail_lim s' = trail_lim s"
proof (induction ts arbitrary: out s)
  case Nil
  then show ?case by simp
next
  case (Cons t ts)
  have m: "trail (mark_seen q a) = trail a \<and> trail_lim (mark_seen q a) = trail_lim a"
    for q and a :: "'a solver"
    by (simp add: mark_seen_def)
  have f: "trail (foldl (\<lambda>a q. mark_seen q a) a qs) = trail a \<and>
           trail_lim (foldl (\<lambda>a q. mark_seen q a) a qs) = trail_lim a"
    for qs and a :: "'a solver"
    by (induction qs arbitrary: a) (simp_all add: m)
  show ?case
  proof (cases "seen s (var t)")
    case False
    with Cons.prems show ?thesis by simp
  next
    case True
    show ?thesis
    proof (cases "reason (varData s (var t))")
      case null_clause_t
      with True Cons.prems Cons.IH show ?thesis
        by (fastforce simp: Let_def split: if_splits)
    next
      case (binary_t l1)
      with True Cons.prems Cons.IH [of out "(mark_seen l1 s)\<lparr>seen := (seen (mark_seen l1 s))(var t := False)\<rparr>"]
      show ?thesis by (simp add: Let_def m)
    next
      case (tertiary_t l1 l2)
      with True Cons.prems
        Cons.IH [of out "(mark_seen l1 (mark_seen l2 s))\<lparr>seen := (seen (mark_seen l1 (mark_seen l2 s)))(var t := False)\<rparr>"]
      show ?thesis by (simp add: Let_def m)
    next
      case (clause_t offs w)
      let ?a = "foldl (\<lambda>a q. mark_seen q a) s (drop 1 (lits (clAllocator s offs)))"
      from clause_t True Cons.prems Cons.IH [of out "?a\<lparr>seen := (seen ?a)(var t := False)\<rparr>"]
      show ?thesis by (simp add: Let_def f)
    qed
  qed
qed

lemma analyzeFinal_trail:
  "analyzeFinal p s = Inr s' \<Longrightarrow> trail s' = trail s \<and> trail_lim s' = trail_lim s"
  by (auto simp: analyzeFinal_def split: if_splits sum.splits dest!: analyzeFinal_loop_trail)

lemma lim_ok_assumption_loop:
  "assumption_loop s = Inr (r, nx, s') \<Longrightarrow> lim_ok s \<Longrightarrow> lim_ok s'"
proof (induction s rule: assumption_loop.induct)
  case (1 s)
  show ?case
  proof (cases "decisionLevel s < length (assumptions s)")
    case False
    with "1.prems" show ?thesis by (simp add: assumption_loop.simps [of s])
  next
    case True
    let ?p = "assumptions s ! decisionLevel s"
    consider (t) "value_lit s ?p = l_True" | (f) "value_lit s ?p = l_False"
      | (u) "value_lit s ?p = l_Undef"
      by (cases "value_lit s ?p") auto
    then show ?thesis
    proof cases
      case t
      with True "1.prems"(1) have "assumption_loop (newDecisionLevel s) = Inr (r, nx, s')"
        by (simp add: assumption_loop.simps [of s])
      then show ?thesis
        using "1.IH" [OF True refl t] lim_ok_newDecisionLevel [OF "1.prems"(2)] by simp
    next
      case f
      with True "1.prems"(1) obtain s1 where
        "analyzeFinal (lit_neg ?p) s = Inr s1" "s' = s1"
        by (auto simp: assumption_loop.simps [of s] split: sum.splits)
      then show ?thesis
        using "1.prems"(2) analyzeFinal_trail lim_ok_cong by metis
    next
      case u
      with True "1.prems" show ?thesis by (simp add: assumption_loop.simps [of s])
    qed
  qed
qed

lemma lim_ok_decide_on: "decide_on nx s = Inr (r, s') \<Longrightarrow> lim_ok s \<Longrightarrow> lim_ok s'"
  by (auto simp: decide_on_def split: if_splits
      intro!: lim_ok_enqueue lim_ok_newDecisionLevel)

lemma lim_ok_new_decision:
  assumes "new_decision K s = Inr (r, s')" and "lim_ok s"
  shows "lim_ok s'"
proof -
  from assms(1) obtain r1 nx s1 where a: "assumption_loop s = Inr (r1, nx, s1)"
    by (auto simp: new_decision_def split: sum.splits)
  have ok1: "lim_ok s1" using lim_ok_assumption_loop [OF a assms(2)] .
  show ?thesis
  proof (cases r1)
    case (Some x)
    with assms(1) a ok1 show ?thesis by (simp add: new_decision_def)
  next
    case None
    show ?thesis
    proof (cases "nx = lit_Undef")
      case False
      with None assms(1) a have "decide_on nx s1 = Inr (r, s')"
        by (simp add: new_decision_def)
      then show ?thesis using ok1 by (rule lim_ok_decide_on)
    next
      case True
      obtain n2 h x where pk: "pickBranchLit K (s1\<lparr>decisions := decisions s1 + 1\<rparr>) = (n2, h, x)"
        by (cases "pickBranchLit K (s1\<lparr>decisions := decisions s1 + 1\<rparr>)") auto
      let ?s3 = "s1\<lparr>decisions := decisions s1 + 1, order_heap := h, ext := x\<rparr>"
      have ok3: "lim_ok ?s3" using ok1 by (simp add: lim_ok_def)
      show ?thesis
      proof (cases "n2 = lit_Undef")
        case True
        with \<open>nx = lit_Undef\<close> None assms(1) a pk have "s' = ?s3"
          by (simp add: new_decision_def Let_def)
        then show ?thesis using ok3 by simp
      next
        case False
        with \<open>nx = lit_Undef\<close> None assms(1) a pk have "decide_on n2 ?s3 = Inr (r, s')"
          by (simp add: new_decision_def Let_def)
        then show ?thesis using ok3 by (rule lim_ok_decide_on)
      qed
    qed
  qed
qed

lemma reachable_lim_ok: "reachable K s \<Longrightarrow> lim_ok s"
proof (induction rule: reachable.induct)
  case (start s)
  then show ?case by (simp add: lim_ok_def)
next
  case (enqueued s p r)
  then show ?case by (simp add: lim_ok_enqueue)
next
  case (decided s r s')
  then show ?case using lim_ok_new_decision by blast
next
  case (cancelled s lvl s')
  then show ?case using lim_ok_cancelUntil by blast
next
  case (other s s')
  then show ?case using lim_ok_cong by blast
qed

text \<open>
  C2 (amended). In every state reachable during search the stack of trail limits is
  non-decreasing (\<open>trail_lim[i] \<le> trail_lim[i+1]\<close>), none of its entries exceeds the
  size of the trail, and its length is \<open>decisionLevel()\<close>.
\<close>

theorem trail_lim_nondecreasing:
  assumes "reachable K s"
  shows "(\<forall>i. i + 1 < length (trail_lim s) \<longrightarrow> trail_lim s ! i \<le> trail_lim s ! (i + 1)) \<and>
         (\<forall>n\<in>set (trail_lim s). n \<le> length (trail s)) \<and>
         length (trail_lim s) = decisionLevel s"
proof -
  from reachable_lim_ok [OF assms] have s: "sorted (trail_lim s)"
    and b: "\<forall>n\<in>set (trail_lim s). n \<le> length (trail s)"
    by (simp_all add: lim_ok_def)
  from s have "\<forall>i. i + 1 < length (trail_lim s) \<longrightarrow> trail_lim s ! i \<le> trail_lim s ! (i + 1)"
    by (simp add: sorted_nth_mono)
  with b show ?thesis by (simp add: decisionLevel_def)
qed

lemma new_decision_ex_assumed:
  "(case new_decision K0 ex_assumed of
      Inl e \<Rightarrow> False
    | Inr (r, s') \<Rightarrow> r = l_Undef \<and> trail_lim s' = [1, 1] \<and> trail s' = [Lit 0 False, Lit 1 False])"
  by code_simp

theorem trail_lim_nondecreasing_witness:
  "(case new_decision K0 ex_assumed of
      Inl e \<Rightarrow> False
    | Inr (r, s') \<Rightarrow>
        reachable K0 s' \<and> trail_lim s' = [1, 1] \<and> decisionLevel s' = 2 \<and>
        trail_lim s' ! 0 \<le> trail_lim s' ! 1 \<and> trail_lim s' ! 1 \<le> length (trail s'))"
proof -
  from new_decision_ex_assumed obtain r s' where
    n: "new_decision K0 ex_assumed = Inr (r, s')" and t: "trail_lim s' = [1, 1]"
    by (auto split: sum.splits)
  have "reachable K0 ex_assumed"
    by (rule reachable.start) (simp add: ex_assumed_def solver0_def)
  then have r: "reachable K0 s'" using n by (rule reachable.decided)
  from trail_lim_nondecreasing [OF r] t
  have "trail_lim s' ! 0 \<le> trail_lim s' ! 1" "trail_lim s' ! 1 \<le> length (trail s')"
    "decisionLevel s' = 2"
    by auto
  with r t show ?thesis by (simp add: n)
qed

text \<open>
  C2 as stated fails: \<open>x0\<close> is True at level 0 and is the first assumption, \<open>x1\<close> the
  second. \<open>new_decision\<close> opens a dummy level for \<open>x0\<close> and then a level for \<open>x1\<close>;
  both levels start at trail position 1, so \<open>trail_lim[0] < trail_lim[1]\<close> is false in
  the state it returns.
\<close>

theorem trail_lim_strict_counterexample:
  "trail_lim ex_assumed = [] \<and>
   value_lit ex_assumed (assumptions ex_assumed ! 0) = l_True \<and>
   (case new_decision K0 ex_assumed of
      Inl e \<Rightarrow> False
    | Inr (r, s') \<Rightarrow>
        reachable K0 s' \<and> r = l_Undef \<and> trail_lim s' = [1, 1] \<and> 0 + 1 < length (trail_lim s') \<and>
        \<not> trail_lim s' ! 0 < trail_lim s' ! (0 + 1))"
proof -
  from new_decision_ex_assumed obtain r s' where
    n: "new_decision K0 ex_assumed = Inr (r, s')" and t: "trail_lim s' = [1, 1]" and u: "r = l_Undef"
    by (auto split: sum.splits)
  have "reachable K0 ex_assumed"
    by (rule reachable.start) (simp add: ex_assumed_def solver0_def)
  then have r: "reachable K0 s'" using n by (rule reachable.decided)
  have "trail_lim ex_assumed = []" "value_lit ex_assumed (assumptions ex_assumed ! 0) = l_True"
    by (simp_all add: ex_assumed_def solver0_def value_lit_def)
  with r t u show ?thesis by (simp add: n)
qed

section \<open>new_decision and the assumptions\<close>

lemma assumption_loop_levels:
  "assumption_loop s = Inr (r, nx, s') \<Longrightarrow>
     trail s' = trail s \<and> (\<exists>n. trail_lim s' = trail_lim s @ replicate n (length (trail s)))"
proof (induction s rule: assumption_loop.induct)
  case (1 s)
  show ?case
  proof (cases "decisionLevel s < length (assumptions s)")
    case False
    with "1.prems" show ?thesis by (simp add: assumption_loop.simps [of s])
  next
    case True
    let ?p = "assumptions s ! decisionLevel s"
    consider (t) "value_lit s ?p = l_True" | (f) "value_lit s ?p = l_False"
      | (u) "value_lit s ?p = l_Undef"
      by (cases "value_lit s ?p") auto
    then show ?thesis
    proof cases
      case t
      with True "1.prems"(1) have "assumption_loop (newDecisionLevel s) = Inr (r, nx, s')"
        by (simp add: assumption_loop.simps [of s])
      from "1.IH" [OF True refl t this] obtain n where
        "trail s' = trail s" "trail_lim s' = trail_lim s @ replicate (Suc n) (length (trail s))"
        by (auto simp: newDecisionLevel_def)
      then show ?thesis by blast
    next
      case f
      with True "1.prems"(1) obtain s1 where
        "analyzeFinal (lit_neg ?p) s = Inr s1" "s' = s1"
        by (auto simp: assumption_loop.simps [of s] split: sum.splits)
      then show ?thesis using analyzeFinal_trail by fastforce
    next
      case u
      with True "1.prems" show ?thesis by (simp add: assumption_loop.simps [of s])
    qed
  qed
qed

lemma new_decision_levels:
  assumes "new_decision K s = Inr (r, s')"
  shows "\<exists>n. trail_lim s' = trail_lim s @ replicate n (length (trail s))"
proof -
  from assms obtain r1 nx s1 where a: "assumption_loop s = Inr (r1, nx, s1)"
    by (auto simp: new_decision_def split: sum.splits)
  from assumption_loop_levels [OF a] obtain n where
    t: "trail s1 = trail s" and l: "trail_lim s1 = trail_lim s @ replicate n (length (trail s))"
    by blast
  have d: "\<exists>n. trail_lim s' = trail_lim s @ replicate n (length (trail s))"
    if "decide_on q s2 = Inr (r, s')" "trail s2 = trail s" "trail_lim s2 = trail_lim s1"
    for q and s2 :: "'a solver"
  proof -
    from that have "trail_lim s' = trail_lim s @ replicate (Suc n) (length (trail s))"
      by (auto simp: decide_on_def newDecisionLevel_def enqueue_def l
          replicate_append_same split: if_splits)
    then show ?thesis by blast
  qed
  show ?thesis
  proof (cases r1)
    case (Some x)
    with assms a l show ?thesis by (auto simp: new_decision_def)
  next
    case None
    show ?thesis
    proof (cases "nx = lit_Undef")
      case False
      with None assms a have "decide_on nx s1 = Inr (r, s')"
        by (simp add: new_decision_def)
      then show ?thesis using t by (rule d) simp
    next
      case True
      obtain n2 h x where pk: "pickBranchLit K (s1\<lparr>decisions := decisions s1 + 1\<rparr>) = (n2, h, x)"
        by (cases "pickBranchLit K (s1\<lparr>decisions := decisions s1 + 1\<rparr>)") auto
      let ?s3 = "s1\<lparr>decisions := decisions s1 + 1, order_heap := h, ext := x\<rparr>"
      show ?thesis
      proof (cases "n2 = lit_Undef")
        case True
        with \<open>nx = lit_Undef\<close> None assms a pk have "s' = ?s3"
          by (simp add: new_decision_def Let_def)
        then show ?thesis using l by auto
      next
        case False
        with \<open>nx = lit_Undef\<close> None assms a pk have "decide_on n2 ?s3 = Inr (r, s')"
          by (simp add: new_decision_def Let_def)
        then show ?thesis by (rule d) (simp_all add: t)
      qed
    qed
  qed
qed

text \<open>
  C5. With \<open>decisionLevel() < |assumptions|\<close>, \<open>new_decision\<close> looks at the assumption
  \<open>p\<close> at index \<open>decisionLevel()\<close>. If \<open>p\<close> is True it opens a decision level and
  enqueues nothing for it: the call goes on exactly as a call from the state with the
  level pushed, and in the state it returns every limit from that level on is the old
  trail size. If \<open>p\<close> is False it runs \<open>analyzeFinal\<close> on \<open>~p\<close>, which fills the
  conflict vector, and returns \<open>l_False\<close>. If \<open>p\<close> is Undef (and is a literal, not the
  sentinel \<open>lit_Undef\<close>) it opens a decision level and enqueues \<open>p\<close> as a decision.
\<close>

theorem new_decision_assumption:
  assumes "decisionLevel s < length (assumptions s)"
  shows
    "(value_lit s (assumptions s ! decisionLevel s) = l_True \<longrightarrow>
        new_decision K s = new_decision K (newDecisionLevel s) \<and>
        trail (newDecisionLevel s) = trail s \<and>
        trail_lim (newDecisionLevel s) = trail_lim s @ [length (trail s)] \<and>
        (\<forall>r s'. new_decision K s = Inr (r, s') \<longrightarrow>
           decisionLevel s < decisionLevel s' \<and>
           (\<forall>i. decisionLevel s \<le> i \<and> i < decisionLevel s' \<longrightarrow>
                  trail_lim s' ! i = length (trail s)))) \<and>
     (value_lit s (assumptions s ! decisionLevel s) = l_False \<longrightarrow>
        new_decision K s =
          (case analyzeFinal (lit_neg (assumptions s ! decisionLevel s)) s of
             Inl e \<Rightarrow> Inl e
           | Inr s' \<Rightarrow> Inr (l_False, s'))) \<and>
     (value_lit s (assumptions s ! decisionLevel s) = l_Undef \<longrightarrow>
      assumptions s ! decisionLevel s \<noteq> lit_Undef \<longrightarrow>
        new_decision K s =
          Inr (l_Undef,
               enqueue (assumptions s ! decisionLevel s) null_clause_t (newDecisionLevel s)))"
proof (intro conjI impI)
  let ?p = "assumptions s ! decisionLevel s"
  {
    assume t: "value_lit s ?p = l_True"
    have al: "assumption_loop s = assumption_loop (newDecisionLevel s)"
      using assms t by (simp add: assumption_loop.simps [of s])
    show eq: "new_decision K s = new_decision K (newDecisionLevel s)"
      unfolding new_decision_def al by (rule refl)
    show "trail (newDecisionLevel s) = trail s"
      by (simp add: newDecisionLevel_def)
    show "trail_lim (newDecisionLevel s) = trail_lim s @ [length (trail s)]"
      by (simp add: newDecisionLevel_def)
    show "\<forall>r s'. new_decision K s = Inr (r, s') \<longrightarrow>
           decisionLevel s < decisionLevel s' \<and>
           (\<forall>i. decisionLevel s \<le> i \<and> i < decisionLevel s' \<longrightarrow>
                  trail_lim s' ! i = length (trail s))"
    proof (intro allI impI)
      fix r s'
      assume "new_decision K s = Inr (r, s')"
      then have "new_decision K (newDecisionLevel s) = Inr (r, s')" using eq by simp
      from new_decision_levels [OF this] obtain n where
        l: "trail_lim s' = trail_lim s @ replicate (Suc n) (length (trail s))"
        by (auto simp: newDecisionLevel_def)
      show "decisionLevel s < decisionLevel s' \<and>
           (\<forall>i. decisionLevel s \<le> i \<and> i < decisionLevel s' \<longrightarrow>
                  trail_lim s' ! i = length (trail s))"
        unfolding decisionLevel_def l by (auto simp: nth_append simp del: replicate_Suc)
    qed
  }
  {
    assume f: "value_lit s ?p = l_False"
    show "new_decision K s =
          (case analyzeFinal (lit_neg ?p) s of Inl e \<Rightarrow> Inl e | Inr s' \<Rightarrow> Inr (l_False, s'))"
      using assms f
      by (simp add: new_decision_def assumption_loop.simps [of s] split: sum.splits)
  }
  {
    assume u: "value_lit s ?p = l_Undef" and n: "?p \<noteq> lit_Undef"
    show "new_decision K s = Inr (l_Undef, enqueue ?p null_clause_t (newDecisionLevel s))"
      using assms u n
      by (simp add: new_decision_def assumption_loop.simps [of s] decide_on_def
          value_lit_def newDecisionLevel_def)
  }
qed

theorem new_decision_assumption_witness:
  "(decisionLevel ex_assumed < length (assumptions ex_assumed) \<and>
    value_lit ex_assumed (assumptions ex_assumed ! decisionLevel ex_assumed) = l_True \<and>
    new_decision K0 ex_assumed = new_decision K0 (newDecisionLevel ex_assumed) \<and>
    trail_lim (newDecisionLevel ex_assumed) = [1] \<and>
    trail (newDecisionLevel ex_assumed) = [Lit 0 False]) \<and>
   (decisionLevel ex_assumed_conflict < length (assumptions ex_assumed_conflict) \<and>
    value_lit ex_assumed_conflict
      (assumptions ex_assumed_conflict ! decisionLevel ex_assumed_conflict) = l_False \<and>
    (case new_decision K0 ex_assumed_conflict of
       Inl e \<Rightarrow> False
     | Inr (r, s') \<Rightarrow> r = l_False \<and> conflict s' = [Lit 1 True, Lit 0 True])) \<and>
   (decisionLevel ex_assumed_undef < length (assumptions ex_assumed_undef) \<and>
    value_lit ex_assumed_undef
      (assumptions ex_assumed_undef ! decisionLevel ex_assumed_undef) = l_Undef \<and>
    new_decision K0 ex_assumed_undef =
      Inr (l_Undef, enqueue (Lit 1 False) null_clause_t (newDecisionLevel ex_assumed_undef)))"
proof -
  have a1: "decisionLevel ex_assumed < length (assumptions ex_assumed)"
    and a2: "value_lit ex_assumed (assumptions ex_assumed ! decisionLevel ex_assumed) = l_True"
    and a3: "trail_lim (newDecisionLevel ex_assumed) = [1]"
            "trail (newDecisionLevel ex_assumed) = [Lit 0 False]"
    by (simp_all add: ex_assumed_def solver0_def decisionLevel_def value_lit_def
        newDecisionLevel_def)
  have b1: "decisionLevel ex_assumed_conflict < length (assumptions ex_assumed_conflict)"
    and b2: "value_lit ex_assumed_conflict
      (assumptions ex_assumed_conflict ! decisionLevel ex_assumed_conflict) = l_False"
    by (simp_all add: ex_assumed_conflict_def solver0_def decisionLevel_def value_lit_def)
  have b3: "(case analyzeFinal
                 (lit_neg (assumptions ex_assumed_conflict ! decisionLevel ex_assumed_conflict))
                 ex_assumed_conflict of
               Inl e \<Rightarrow> False
             | Inr s' \<Rightarrow> conflict s' = [Lit 1 True, Lit 0 True])"
    by code_simp
  have c1: "decisionLevel ex_assumed_undef < length (assumptions ex_assumed_undef)"
    and c2: "value_lit ex_assumed_undef
      (assumptions ex_assumed_undef ! decisionLevel ex_assumed_undef) = l_Undef"
    and c3: "assumptions ex_assumed_undef ! decisionLevel ex_assumed_undef = Lit 1 False"
    and c4: "Lit 1 False \<noteq> lit_Undef"
    by (simp_all add: ex_assumed_undef_def solver0_def decisionLevel_def value_lit_def
        lit_Undef_def var_Undef_def)
  from new_decision_assumption [OF a1, of K0] a2
  have A: "new_decision K0 ex_assumed = new_decision K0 (newDecisionLevel ex_assumed)"
    by simp
  from new_decision_assumption [OF b1, of K0] b2 b3
  have B: "(case new_decision K0 ex_assumed_conflict of
       Inl e \<Rightarrow> False
     | Inr (r, s') \<Rightarrow> r = l_False \<and> conflict s' = [Lit 1 True, Lit 0 True])"
    by (simp split: sum.splits)
  from new_decision_assumption [OF c1, of K0] c2 c3 c4
  have C: "new_decision K0 ex_assumed_undef =
      Inr (l_Undef, enqueue (Lit 1 False) null_clause_t (newDecisionLevel ex_assumed_undef))"
    by simp
  show ?thesis using a1 a2 a3 b1 b2 c1 c2 A B C by simp
qed

section \<open>A conflict at decision level 0\<close>


lemma addToThreads_ok: "ok (addToThreads K n s) = ok s"
proof -
  have "ok (foldl (\<lambda>a t.
              (case newClauseByThread K [t] 1 (lastSumConfl a) (ext a) of
                 (n, x) \<Rightarrow> a\<lparr>lastSumConfl := n, ext := x, lastUnit := lastUnit a + 1\<rparr>)) a ts)
        = ok a" for ts and a :: "'a solver"
    by (induction ts arbitrary: a) (simp_all split: prod.splits)
  then show ?thesis by (simp add: addToThreads_def)
qed





section \<open>Imported units\<close>

lemma addUnits_append:
  "addUnits pre s0 = Inr (True, s) \<Longrightarrow> addUnits (pre @ us) s0 = addUnits us s"
proof (induction pre arbitrary: s0)
  case Nil
  then show ?case by simp
next
  case (Cons a pre)
  show ?case
  proof (cases "value_lit s0 a = l_True \<and> level (varData s0 (var a)) = 0")
    case True
    with Cons.prems have "addUnits pre s0 = Inr (True, s)" by simp
    from Cons.IH [OF this] True show ?thesis by simp
  next
    case False
    with Cons.prems obtain s1 where c: "cancelUntil 0 s0 = Inr s1"
      and u: "value_lit s1 a = l_Undef"
      and r: "addUnits pre (enqueue a null_clause_t s1) = Inr (True, s)"
      by (auto split: sum.splits if_splits)
    from Cons.IH [OF r] False c u show ?thesis by auto
  qed
qed

text \<open>
  \<open>cancelUntil\<close> and the unit loop neither read nor write \<open>ok\<close> and the three queues
  of imported clauses.
\<close>

lemma cancel_loop_queue:
  "cancel_loop ps (s\<lparr>unitToAdd := q\<rparr>) =
     (case cancel_loop ps s of Inl e \<Rightarrow> Inl e | Inr t \<Rightarrow> Inr (t\<lparr>unitToAdd := q\<rparr>))"
proof (induction ps arbitrary: s)
  case Nil
  show ?case by simp
next
  case (Cons p ps)
  let ?s1 = "insertVarOrder (var p) (s\<lparr>assigns := (assigns s)(var p := l_Undef)\<rparr>)"
  have i: "insertVarOrder (var p)
             ((s\<lparr>unitToAdd := q\<rparr>)\<lparr>assigns := (assigns (s\<lparr>unitToAdd := q\<rparr>))(var p := l_Undef)\<rparr>) =
           ?s1\<lparr>unitToAdd := q\<rparr>"
    by (simp add: insertVarOrder_def)
  show ?case
  proof (cases "assigns s (var p) = l_Undef")
    case True
    then show ?thesis by (simp add: value_var_def)
  next
    case False
    then have "cancel_loop (p # ps) (s\<lparr>unitToAdd := q\<rparr>) = cancel_loop ps (?s1\<lparr>unitToAdd := q\<rparr>)"
      by (simp only: cancel_loop.simps i) (simp add: value_var_def)
    also have "\<dots> = (case cancel_loop ps ?s1 of Inl e \<Rightarrow> Inl e | Inr t \<Rightarrow> Inr (t\<lparr>unitToAdd := q\<rparr>))"
      by (rule Cons.IH)
    also have "\<dots> = (case cancel_loop (p # ps) s of Inl e \<Rightarrow> Inl e | Inr t \<Rightarrow> Inr (t\<lparr>unitToAdd := q\<rparr>))"
      using False by (simp add: value_var_def)
    finally show ?thesis .
  qed
qed

lemma cancel_loop_frame:
  "cancel_loop ps s = Inr s' \<Longrightarrow>
     ok s' = ok s \<and> unitToAdd s' = unitToAdd s \<and> binToAdd s' = binToAdd s \<and>
     longToAdd s' = longToAdd s \<and> trail_lim s' = trail_lim s \<and> trail s' = trail s"
  by (induction ps arbitrary: s) (auto simp: insertVarOrder_def split: if_splits)

lemma cancelUntil_frame:
  "cancelUntil lvl s = Inr s' \<Longrightarrow>
     ok s' = ok s \<and> unitToAdd s' = unitToAdd s \<and> binToAdd s' = binToAdd s \<and>
     longToAdd s' = longToAdd s"
  by (auto simp: cancelUntil_def split: if_splits sum.splits dest!: cancel_loop_frame)

lemma cancelUntil_queue:
  "cancelUntil lvl (s\<lparr>unitToAdd := q\<rparr>) =
     (case cancelUntil lvl s of Inl e \<Rightarrow> Inl e | Inr t \<Rightarrow> Inr (t\<lparr>unitToAdd := q\<rparr>))"
  by (auto simp: cancelUntil_def decisionLevel_def cancel_loop_queue
      split: sum.splits dest!: cancel_loop_frame)

lemma enqueue_queue:
  "enqueue p r (s\<lparr>unitToAdd := q\<rparr>) = (enqueue p r s)\<lparr>unitToAdd := q\<rparr>"
  by (simp add: enqueue_def decisionLevel_def)

lemma addUnits_queue:
  "addUnits us (s\<lparr>unitToAdd := q\<rparr>) =
     (case addUnits us s of Inl e \<Rightarrow> Inl e | Inr (r, t) \<Rightarrow> Inr (r, t\<lparr>unitToAdd := q\<rparr>))"
proof (induction us arbitrary: s)
  case Nil
  show ?case by simp
next
  case (Cons u us)
  have v: "value_lit (t\<lparr>unitToAdd := q\<rparr>) l = value_lit t l" for l and t :: "'a solver"
    by (simp add: value_lit_def)
  show ?case
  proof (cases "value_lit s u = l_True \<and> level (varData s (var u)) = 0")
    case True
    then show ?thesis by (simp add: v Cons.IH)
  next
    case False
    show ?thesis
    proof (cases "cancelUntil 0 s")
      case (Inl e)
      with False show ?thesis by (auto simp: v cancelUntil_queue)
    next
      case (Inr s1)
      with False show ?thesis
        by (auto simp: v cancelUntil_queue enqueue_queue Cons.IH)
    qed
  qed
qed

lemma addUnits_frame:
  "addUnits us s0 = Inr (r, s) \<Longrightarrow>
     ok s = ok s0 \<and> unitToAdd s = unitToAdd s0 \<and> binToAdd s = binToAdd s0 \<and>
     longToAdd s = longToAdd s0"
proof (induction us arbitrary: s0)
  case Nil
  then show ?case by auto
next
  case (Cons u us)
  show ?case
  proof (cases "value_lit s0 u = l_True \<and> level (varData s0 (var u)) = 0")
    case True
    with Cons.prems have "addUnits us s0 = Inr (r, s)" by simp
    then show ?thesis by (rule Cons.IH)
  next
    case False
    with Cons.prems obtain s1 where c: "cancelUntil 0 s0 = Inr s1"
      by (auto split: sum.splits)
    note f = cancelUntil_frame [OF c]
    show ?thesis
    proof (cases "value_lit s1 u = l_Undef")
      case True
      with False c Cons.prems have "addUnits us (enqueue u null_clause_t s1) = Inr (r, s)"
        by auto
      from Cons.IH [OF this] f show ?thesis by (simp add: enqueue_def)
    next
      case n: False
      with False c Cons.prems have "s = s1" by (auto split: if_splits)
      with f show ?thesis by simp
    qed
  qed
qed

text \<open>
  When the unit loop on the queue of \<open>s0\<close> comes down to the loop on \<open>rest\<close> from a
  state \<open>s'\<close>, the whole call on \<open>s0\<close> ends as the call on \<open>s'\<close> with the queue \<open>rest\<close>.
\<close>

lemma addOtherClauses_from:
  assumes "ok s0" and "ok s'"
    and "addUnits (unitToAdd s0) s0 = addUnits rest s'"
  shows "up_to_unit_queue (addOtherClauses K s0) =
         up_to_unit_queue (addOtherClauses K (s'\<lparr>unitToAdd := rest\<rparr>))"
proof (cases "addUnits rest s'")
  case (Inl e)
  with assms show ?thesis
    by (simp add: addOtherClauses_def addUnits_queue up_to_unit_queue_def)
next
  case (Inr a)
  obtain r t where a: "a = (r, t)" by (cases a) auto
  show ?thesis
  proof (cases r)
    case False
    with Inr a assms show ?thesis
      by (simp add: addOtherClauses_def addUnits_queue up_to_unit_queue_def)
  next
    case True
    with Inr a assms have "addOtherClauses K s0 = addOtherClauses K (s'\<lparr>unitToAdd := rest\<rparr>)"
      by (simp add: addOtherClauses_def addUnits_queue)
    then show ?thesis by simp
  qed
qed

text \<open>
  When the unit loop runs to its end in state \<open>t\<close> and no binary or long clause is
  queued, the call returns true with the three queues cleared.
\<close>

lemma addOtherClauses_units_only:
  assumes "ok s0" and "addUnits (unitToAdd s0) s0 = Inr (True, t)"
    and "binToAdd s0 = []" and "longToAdd s0 = []"
  shows "addOtherClauses K s0 = Inr (True, t\<lparr>unitToAdd := [], binToAdd := [], longToAdd := []\<rparr>)"
proof -
  from addUnits_frame [OF assms(2)] assms(3,4)
  have "binToAdd t = []" "longToAdd t = []" by simp_all
  with assms(1,2) show ?thesis by (simp add: addOtherClauses_def)
qed

text \<open>
  C7. Let \<open>s\<close> be the state in which \<open>addOtherClauses\<close>, called in state \<open>s0\<close>, comes to
  the imported unit \<open>u\<close> of its queue (the units \<open>pre\<close> before it have been processed,
  the units \<open>rest\<close> follow). If \<open>u\<close> is True and its variable is at level 0, the unit is
  skipped: the call ends as a call from the same state \<open>s\<close> with the queue \<open>rest\<close>, and
  when \<open>u\<close> is the last import the call returns true with the state \<open>s\<close>, the queues
  cleared. Otherwise the solver cancels to level 0 first. If \<open>u\<close> is then Undef it is
  enqueued with no reason: the call ends as a call from the state after the enqueue
  with the queue \<open>rest\<close>, and when \<open>u\<close> is the last import the call returns true with
  that state, the queues cleared. If \<open>u\<close> is then False, \<open>addOtherClauses\<close> returns
  false, in the cancelled state.
\<close>

theorem addOtherClauses_unit:
  assumes "addUnits pre s0 = Inr (True, s)"
  shows
    "addUnits (pre @ u # rest) s0 = addUnits (u # rest) s \<and>
     (value_lit s u = l_True \<and> level (varData s (var u)) = 0 \<longrightarrow>
        addUnits (u # rest) s = addUnits rest s \<and>
        (ok s0 \<and> unitToAdd s0 = pre @ u # rest \<longrightarrow>
           up_to_unit_queue (addOtherClauses K s0) =
             up_to_unit_queue (addOtherClauses K (s\<lparr>unitToAdd := rest\<rparr>)) \<and>
           (rest = [] \<and> binToAdd s0 = [] \<and> longToAdd s0 = [] \<longrightarrow>
              addOtherClauses K s0 =
                Inr (True, s\<lparr>unitToAdd := [], binToAdd := [], longToAdd := []\<rparr>)))) \<and>
     (\<not> (value_lit s u = l_True \<and> level (varData s (var u)) = 0) \<longrightarrow>
        (\<forall>s1. cancelUntil 0 s = Inr s1 \<longrightarrow>
           (value_lit s1 u = l_Undef \<longrightarrow>
              addUnits (u # rest) s = addUnits rest (enqueue u null_clause_t s1) \<and>
              (ok s0 \<and> unitToAdd s0 = pre @ u # rest \<longrightarrow>
                 up_to_unit_queue (addOtherClauses K s0) =
                   up_to_unit_queue
                     (addOtherClauses K ((enqueue u null_clause_t s1)\<lparr>unitToAdd := rest\<rparr>)) \<and>
                 (rest = [] \<and> binToAdd s0 = [] \<and> longToAdd s0 = [] \<longrightarrow>
                    addOtherClauses K s0 =
                      Inr (True, (enqueue u null_clause_t s1)
                                   \<lparr>unitToAdd := [], binToAdd := [], longToAdd := []\<rparr>)))) \<and>
           (value_lit s1 u = l_False \<longrightarrow>
              addUnits (u # rest) s = Inr (False, s1) \<and>
              (ok s0 \<and> unitToAdd s0 = pre @ u # rest \<longrightarrow>
                 addOtherClauses K s0 = Inr (False, s1)))))"
proof -
  have a: "addUnits (pre @ u # rest) s0 = addUnits (u # rest) s"
    using assms by (rule addUnits_append)
  have oks: "ok s = ok s0" using addUnits_frame [OF assms] by simp
  have skip: "addUnits (u # rest) s = addUnits rest s \<and>
        (ok s0 \<and> unitToAdd s0 = pre @ u # rest \<longrightarrow>
           up_to_unit_queue (addOtherClauses K s0) =
             up_to_unit_queue (addOtherClauses K (s\<lparr>unitToAdd := rest\<rparr>)) \<and>
           (rest = [] \<and> binToAdd s0 = [] \<and> longToAdd s0 = [] \<longrightarrow>
              addOtherClauses K s0 =
                Inr (True, s\<lparr>unitToAdd := [], binToAdd := [], longToAdd := []\<rparr>)))"
    if t: "value_lit s u = l_True \<and> level (varData s (var u)) = 0"
  proof (intro conjI impI)
    show e: "addUnits (u # rest) s = addUnits rest s" using t by simp
    {
      assume h: "ok s0 \<and> unitToAdd s0 = pre @ u # rest"
      then have u: "addUnits (unitToAdd s0) s0 = addUnits rest s" using a e by simp
      from h oks have "ok s" by simp
      with h u show "up_to_unit_queue (addOtherClauses K s0) =
             up_to_unit_queue (addOtherClauses K (s\<lparr>unitToAdd := rest\<rparr>))"
        by (intro addOtherClauses_from) simp_all
      assume l: "rest = [] \<and> binToAdd s0 = [] \<and> longToAdd s0 = []"
      with u have "addUnits (unitToAdd s0) s0 = Inr (True, s)" by simp
      with h l show "addOtherClauses K s0 =
                Inr (True, s\<lparr>unitToAdd := [], binToAdd := [], longToAdd := []\<rparr>)"
        by (intro addOtherClauses_units_only) simp_all
    }
  qed
  have other: "(value_lit s1 u = l_Undef \<longrightarrow>
              addUnits (u # rest) s = addUnits rest (enqueue u null_clause_t s1) \<and>
              (ok s0 \<and> unitToAdd s0 = pre @ u # rest \<longrightarrow>
                 up_to_unit_queue (addOtherClauses K s0) =
                   up_to_unit_queue
                     (addOtherClauses K ((enqueue u null_clause_t s1)\<lparr>unitToAdd := rest\<rparr>)) \<and>
                 (rest = [] \<and> binToAdd s0 = [] \<and> longToAdd s0 = [] \<longrightarrow>
                    addOtherClauses K s0 =
                      Inr (True, (enqueue u null_clause_t s1)
                                   \<lparr>unitToAdd := [], binToAdd := [], longToAdd := []\<rparr>)))) \<and>
           (value_lit s1 u = l_False \<longrightarrow>
              addUnits (u # rest) s = Inr (False, s1) \<and>
              (ok s0 \<and> unitToAdd s0 = pre @ u # rest \<longrightarrow>
                 addOtherClauses K s0 = Inr (False, s1)))"
    if n: "\<not> (value_lit s u = l_True \<and> level (varData s (var u)) = 0)"
      and c: "cancelUntil 0 s = Inr s1" for s1
  proof (intro conjI impI)
    let ?s2 = "enqueue u null_clause_t s1"
    have ok2: "ok ?s2 = ok s0"
      using cancelUntil_frame [OF c] oks by (simp add: enqueue_def)
    {
      assume v: "value_lit s1 u = l_Undef"
      show e: "addUnits (u # rest) s = addUnits rest ?s2" using n c v by auto
      assume h: "ok s0 \<and> unitToAdd s0 = pre @ u # rest"
      then have u: "addUnits (unitToAdd s0) s0 = addUnits rest ?s2" using a e by simp
      from h ok2 have "ok ?s2" by simp
      with h u show "up_to_unit_queue (addOtherClauses K s0) =
             up_to_unit_queue (addOtherClauses K (?s2\<lparr>unitToAdd := rest\<rparr>))"
        by (intro addOtherClauses_from) simp_all
      assume l: "rest = [] \<and> binToAdd s0 = [] \<and> longToAdd s0 = []"
      with u have "addUnits (unitToAdd s0) s0 = Inr (True, ?s2)" by simp
      with h l show "addOtherClauses K s0 =
                Inr (True, ?s2\<lparr>unitToAdd := [], binToAdd := [], longToAdd := []\<rparr>)"
        by (intro addOtherClauses_units_only) simp_all
    }
    {
      assume f: "value_lit s1 u = l_False"
      show r: "addUnits (u # rest) s = Inr (False, s1)" using n c f by auto
      assume "ok s0 \<and> unitToAdd s0 = pre @ u # rest"
      with a r show "addOtherClauses K s0 = Inr (False, s1)"
        by (simp add: addOtherClauses_def)
    }
  qed
  from a skip other show ?thesis by blast
qed

theorem addOtherClauses_unit_witness:
  "(value_lit (ex_assumed\<lparr>unitToAdd := [Lit 0 False]\<rparr>) (Lit 0 False) = l_True \<and>
    level (varData (ex_assumed\<lparr>unitToAdd := [Lit 0 False]\<rparr>) (var (Lit 0 False))) = 0 \<and>
    addOtherClauses K0 (ex_assumed\<lparr>unitToAdd := [Lit 0 False]\<rparr>) =
      Inr (True, ex_assumed\<lparr>unitToAdd := [], binToAdd := [], longToAdd := []\<rparr>)) \<and>
   (value_lit (ex_level1\<lparr>unitToAdd := [Lit 1 True]\<rparr>) (Lit 1 True) = l_False \<and>
    (case addOtherClauses K0 (ex_level1\<lparr>unitToAdd := [Lit 1 True]\<rparr>) of
       Inl e \<Rightarrow> False
     | Inr (r, s') \<Rightarrow>
         r \<and> trail s' = [Lit 1 True] \<and> trail_lim s' = [] \<and>
         value_lit s' (Lit 1 True) = l_True \<and> value_var s' 0 = l_Undef \<and>
         reason (varData s' 1) = null_clause_t \<and> level (varData s' 1) = 0 \<and>
         unitToAdd s' = [])) \<and>
   (value_lit (ex_assumed\<lparr>unitToAdd := [Lit 0 True]\<rparr>) (Lit 0 True) = l_False \<and>
    cancelUntil 0 (ex_assumed\<lparr>unitToAdd := [Lit 0 True]\<rparr>) =
      Inr (ex_assumed\<lparr>unitToAdd := [Lit 0 True]\<rparr>) \<and>
    addOtherClauses K0 (ex_assumed\<lparr>unitToAdd := [Lit 0 True]\<rparr>) =
      Inr (False, ex_assumed\<lparr>unitToAdd := [Lit 0 True]\<rparr>))"
proof -
  have p: "addUnits [] s = Inr (True, s)" for s :: "unit solver" by simp
  let ?a = "ex_assumed\<lparr>unitToAdd := [Lit 0 False]\<rparr>"
  have A1: "value_lit ?a (Lit 0 False) = l_True"
    and A2: "level (varData ?a (var (Lit 0 False))) = 0"
    and A3: "ok ?a" "unitToAdd ?a = [] @ Lit 0 False # []" "binToAdd ?a = []" "longToAdd ?a = []"
    by (simp_all add: ex_assumed_def solver0_def value_lit_def)
  from addOtherClauses_unit [OF p [of ?a], where u = "Lit 0 False" and rest = "[]" and K = K0]
    A1 A2 A3
  have A: "addOtherClauses K0 ?a =
             Inr (True, ex_assumed\<lparr>unitToAdd := [], binToAdd := [], longToAdd := []\<rparr>)"
    by simp
  let ?b = "ex_level1\<lparr>unitToAdd := [Lit 1 True]\<rparr>"
  have B1: "value_lit ?b (Lit 1 True) = l_False"
    and B3: "ok ?b" "unitToAdd ?b = [] @ Lit 1 True # []" "binToAdd ?b = []" "longToAdd ?b = []"
    by (simp_all add: ex_level1_def solver0_def value_lit_def)
  have B2: "(case cancelUntil 0 ?b of
       Inl e \<Rightarrow> False
     | Inr s1 \<Rightarrow> value_lit s1 (Lit 1 True) = l_Undef \<and> trail s1 = [] \<and> trail_lim s1 = [] \<and>
                value_var s1 0 = l_Undef)"
    by (simp add: ex_level1_def solver0_def cancelUntil_def decisionLevel_def value_var_def
        value_lit_def insertVarOrder_def resize_vec_def)
  then obtain s1 where c: "cancelUntil 0 ?b = Inr s1"
    and u: "value_lit s1 (Lit 1 True) = l_Undef"
    and t: "trail s1 = []" "trail_lim s1 = []" "value_var s1 0 = l_Undef"
    by (auto split: sum.splits)
  from addOtherClauses_unit [OF p [of ?b], where u = "Lit 1 True" and rest = "[]" and K = K0]
    B1 B3 c u
  have "addOtherClauses K0 ?b =
          Inr (True, (enqueue (Lit 1 True) null_clause_t s1)
                       \<lparr>unitToAdd := [], binToAdd := [], longToAdd := []\<rparr>)"
    by simp
  then have B: "(case addOtherClauses K0 ?b of
       Inl e \<Rightarrow> False
     | Inr (r, s') \<Rightarrow>
         r \<and> trail s' = [Lit 1 True] \<and> trail_lim s' = [] \<and>
         value_lit s' (Lit 1 True) = l_True \<and> value_var s' 0 = l_Undef \<and>
         reason (varData s' 1) = null_clause_t \<and> level (varData s' 1) = 0 \<and>
         unitToAdd s' = [])"
    using t by (simp add: enqueue_def value_lit_def value_var_def decisionLevel_def)
  let ?e = "ex_assumed\<lparr>unitToAdd := [Lit 0 True]\<rparr>"
  have E1: "value_lit ?e (Lit 0 True) = l_False"
    and E2: "cancelUntil 0 ?e = Inr ?e"
    and E3: "ok ?e" "unitToAdd ?e = [] @ Lit 0 True # []"
    by (simp_all add: ex_assumed_def solver0_def value_lit_def cancelUntil_def decisionLevel_def)
  from addOtherClauses_unit [OF p [of ?e], where u = "Lit 0 True" and rest = "[]" and K = K0]
    E1 E2 E3
  have D: "addOtherClauses K0 ?e = Inr (False, ?e)"
    by simp
  show ?thesis using A1 A2 A B1 B E1 E2 D by simp
qed

section \<open>Simplifier::subset decides inclusion\<close>

lemma toInt_inject: "toInt p = toInt q \<longleftrightarrow> p = q"
proof
  assume e: "toInt p = toInt q"
  have "sign p = sign q"
  proof (rule ccontr)
    assume "sign p \<noteq> sign q"
    with e have "odd (2 * var p + 1) = odd (2 * var q) \<or> odd (2 * var p) = odd (2 * var q + 1)"
      by (cases "sign p"; cases "sign q") (simp_all add: toInt_def)
    then show False by simp
  qed
  moreover from this e have "var p = var q" by (simp add: toInt_def)
  ultimately show "p = q" by (simp add: Lit.expand)
qed simp

lemma set_seen_result:
  "\<forall>q\<in>set B. toInt q < length sn \<Longrightarrow>
   \<exists>sn'. set_seen b B sn = Inr sn' \<and> length sn' = length sn \<and>
         (\<forall>i<length sn. sn' ! i = (if i \<in> toInt ` set B then b else sn ! i))"
proof (induction B arbitrary: sn)
  case Nil
  then show ?case by simp
next
  case (Cons q B)
  have "\<forall>r\<in>set B. toInt r < length (sn[toInt q := b])" using Cons.prems by simp
  from Cons.IH [OF this] obtain sn' where
    r: "set_seen b B (sn[toInt q := b]) = Inr sn'" and l: "length sn' = length sn"
    and v: "\<forall>i<length sn. sn' ! i = (if i \<in> toInt ` set B then b else sn[toInt q := b] ! i)"
    by auto
  have "set_seen b (q # B) sn = Inr sn'" using Cons.prems r by simp
  moreover have "\<forall>i<length sn. sn' ! i = (if i \<in> toInt ` set (q # B) then b else sn ! i)"
    using v by (auto simp: nth_list_update)
  ultimately show ?case using l by blast
qed

lemma all_seen_result:
  "\<forall>q\<in>set A. toInt q < length sn \<Longrightarrow> all_seen A sn = Inr (\<forall>q\<in>set A. sn ! toInt q)"
  by (induction A) auto

text \<open>
  C10. For literal sequences \<open>A\<close> and \<open>B\<close> and a \<open>seen\<close> vector that is all false and
  covers the literals of both, \<open>subset(A, B, seen)\<close> returns true exactly when every
  literal of \<open>A\<close> occurs in \<open>B\<close>, and leaves \<open>seen\<close> as it was, all false.
\<close>

theorem subset_is_inclusion:
  assumes "\<forall>b\<in>set sn. \<not> b"
    and "\<forall>q\<in>set A \<union> set B. toInt q < length sn"
  shows "Simplifier_subset A B sn = Inr (set A \<subseteq> set B, sn)"
proof -
  have bB: "\<forall>q\<in>set B. toInt q < length sn" and bA: "\<forall>q\<in>set A. toInt q < length sn"
    using assms(2) by auto
  have z: "\<not> sn ! i" if "i < length sn" for i
    using assms(1) that by (auto simp: in_set_conv_nth)
  from set_seen_result [OF bB, of True] obtain sn1 where
    m: "set_seen True B sn = Inr sn1" and l1: "length sn1 = length sn"
    and v1: "\<forall>i<length sn. sn1 ! i = (if i \<in> toInt ` set B then True else sn ! i)"
    by blast
  have bA1: "\<forall>q\<in>set A. toInt q < length sn1" and bB1: "\<forall>q\<in>set B. toInt q < length sn1"
    using bA bB l1 by simp_all
  have "(\<forall>q\<in>set A. sn1 ! toInt q) \<longleftrightarrow> set A \<subseteq> set B"
  proof
    assume a: "\<forall>q\<in>set A. sn1 ! toInt q"
    show "set A \<subseteq> set B"
    proof
      fix q assume q: "q \<in> set A"
      with a bA v1 z have "toInt q \<in> toInt ` set B" by (metis (full_types))
      then show "q \<in> set B" by (auto simp: toInt_inject)
    qed
  next
    assume "set A \<subseteq> set B"
    then show "\<forall>q\<in>set A. sn1 ! toInt q" using v1 bA by auto
  qed
  then have c: "all_seen A sn1 = Inr (set A \<subseteq> set B)"
    using all_seen_result [OF bA1] by simp
  from set_seen_result [OF bB1, of False] obtain sn2 where
    u: "set_seen False B sn1 = Inr sn2" and l2: "length sn2 = length sn1"
    and v2: "\<forall>i<length sn1. sn2 ! i = (if i \<in> toInt ` set B then False else sn1 ! i)"
    by blast
  have "sn2 = sn"
  proof (rule nth_equalityI)
    show "length sn2 = length sn" using l1 l2 by simp
  next
    fix i assume "i < length sn2"
    then have i: "i < length sn" using l1 l2 by simp
    then show "sn2 ! i = sn ! i" using v1 v2 l1 z by auto
  qed
  with m c u show ?thesis by (simp add: Simplifier_subset_def)
qed

theorem subset_is_inclusion_witness:
  "list_all (\<lambda>b. \<not> b) (replicate 8 False) \<and>
   list_all (\<lambda>q. toInt q < length (replicate 8 False :: bool list))
     ([Lit 1 True, Lit 0 False] @ [Lit 0 False, Lit 2 False, Lit 1 True]) \<and>
   Simplifier_subset [Lit 1 True, Lit 0 False] [Lit 0 False, Lit 2 False, Lit 1 True]
       (replicate 8 False) = Inr (True, replicate 8 False) \<and>
   Simplifier_subset [Lit 1 False, Lit 0 False] [Lit 0 False, Lit 2 False, Lit 1 True]
       (replicate 8 False) = Inr (False, replicate 8 False)"
proof -
  have z: "\<forall>b\<in>set (replicate 8 False). \<not> b" by simp
  have b1: "\<forall>q\<in>set [Lit 1 True, Lit 0 False] \<union> set [Lit 0 False, Lit 2 False, Lit 1 True].
              toInt q < length (replicate 8 False :: bool list)"
    and b2: "\<forall>q\<in>set [Lit 1 False, Lit 0 False] \<union> set [Lit 0 False, Lit 2 False, Lit 1 True].
              toInt q < length (replicate 8 False :: bool list)"
    by (simp_all add: toInt_def)
  have l: "list_all (\<lambda>q. toInt q < length (replicate 8 False :: bool list))
     ([Lit 1 True, Lit 0 False] @ [Lit 0 False, Lit 2 False, Lit 1 True])"
    by (simp add: toInt_def)
  have n: "list_all (\<lambda>b. \<not> b) (replicate 8 False)"
    by (simp add: list_all_iff)
  show ?thesis
    using subset_is_inclusion [OF z b1] subset_is_inclusion [OF z b2] l n by simp
qed

section \<open>minimiseLearntFurther only removes literals\<close>

lemma compact_result:
  "\<exists>ys n sn'. compact qs kept r sn = (kept @ ys, r + n, sn') \<and>
      subseq ys qs \<and>
      set ys = {q \<in> set qs. sn (toInt q)} \<and>
      (distinct qs \<longrightarrow> ys = filter (\<lambda>q. sn (toInt q)) qs) \<and>
      (\<forall>q qs'. qs = q # qs' \<and> sn (toInt q) \<longrightarrow> (\<exists>ys'. ys = q # ys'))"
proof (induction qs arbitrary: kept r sn)
  case Nil
  show ?case by simp
next
  case (Cons q qs)
  let ?sn1 = "sn(toInt q := False)"
  have c: "?sn1 (toInt x) = (x \<noteq> q \<and> sn (toInt x))" for x
    by (auto simp: toInt_inject)
  show ?case
  proof (cases "sn (toInt q)")
    case True
    from Cons.IH [of "kept @ [q]" r ?sn1] obtain ys n sn' where
      e: "compact qs (kept @ [q]) r ?sn1 = ((kept @ [q]) @ ys, r + n, sn')"
      and s: "subseq ys qs" and m: "set ys = {x \<in> set qs. ?sn1 (toInt x)}"
      and d: "distinct qs \<longrightarrow> ys = filter (\<lambda>x. ?sn1 (toInt x)) qs"
      by blast
    have "compact (q # qs) kept r sn = (kept @ (q # ys), r + n, sn')"
      using True e by simp
    moreover have "subseq (q # ys) (q # qs)" using s by simp
    moreover have "set (q # ys) = {x \<in> set (q # qs). sn (toInt x)}"
      using m [unfolded c] True by auto
    moreover have "distinct (q # qs) \<longrightarrow> q # ys = filter (\<lambda>x. sn (toInt x)) (q # qs)"
    proof
      assume dq: "distinct (q # qs)"
      then have "filter (\<lambda>x. ?sn1 (toInt x)) qs = filter (\<lambda>x. sn (toInt x)) qs"
        unfolding c by (intro filter_cong) auto
      with d dq True show "q # ys = filter (\<lambda>x. sn (toInt x)) (q # qs)" by simp
    qed
    ultimately show ?thesis by blast
  next
    case False
    from Cons.IH [of kept "r + 1" ?sn1] obtain ys n sn' where
      e: "compact qs kept (r + 1) ?sn1 = (kept @ ys, r + 1 + n, sn')"
      and s: "subseq ys qs" and m: "set ys = {x \<in> set qs. ?sn1 (toInt x)}"
      and d: "distinct qs \<longrightarrow> ys = filter (\<lambda>x. ?sn1 (toInt x)) qs"
      by blast
    have "compact (q # qs) kept r sn = (kept @ ys, r + (1 + n), sn')"
      using False e by simp
    moreover have "subseq ys (q # qs)" using s by (rule list_emb_Cons)
    moreover have "set ys = {x \<in> set (q # qs). sn (toInt x)}"
      using m [unfolded c] False by auto
    moreover have "distinct (q # qs) \<longrightarrow> ys = filter (\<lambda>x. sn (toInt x)) (q # qs)"
    proof
      assume dq: "distinct (q # qs)"
      then have "filter (\<lambda>x. ?sn1 (toInt x)) qs = filter (\<lambda>x. sn (toInt x)) qs"
        unfolding c by (intro filter_cong) auto
      with d dq False show "ys = filter (\<lambda>x. sn (toInt x)) (q # qs)" by simp
    qed
    ultimately show ?thesis using False by blast
  qed
qed

lemma minim_seen_counter [simp]:
  "minim_seen (s\<lparr>furtherClMinim := n\<rparr>) cl = minim_seen s cl"
proof -
  have "minim_lit (s\<lparr>furtherClMinim := n\<rparr>) = minim_lit s"
    by (simp add: fun_eq_iff minim_lit_def)
  then show ?thesis by (simp add: minim_seen_def)
qed

text \<open>
  C8. With the cache enabled, \<open>minimiseLearntFurther\<close> on a non-empty clause returns a
  clause that is a subsequence of the input; its literals are exactly the first literal
  of the input and the literals of the input whose mark is still set after the
  minimisation loops; the first literal stays at position 0. When no literal occurs
  twice in the input, the result is the input filtered by the marks, in order.
\<close>

theorem minimiseLearntFurther_only_removes:
  assumes "doCache (conf s)" and "cl \<noteq> []"
  shows "\<exists>out s'. minimiseLearntFurther cl glue s = Inr (out, s') \<and>
           subseq out cl \<and>
           set out = {q \<in> set cl. q = cl ! 0 \<or> minim_seen s cl (toInt q)} \<and>
           out \<noteq> [] \<and> out ! 0 = cl ! 0 \<and>
           (distinct cl \<longrightarrow>
              out = filter (\<lambda>q. q = cl ! 0 \<or> minim_seen s cl (toInt q)) cl)"
proof -
  let ?sn3 = "(minim_seen s cl)(toInt (cl ! 0) := True)"
  have c: "?sn3 (toInt q) = (q = cl ! 0 \<or> minim_seen s cl (toInt q))" for q
    by (auto simp: toInt_inject)
  from compact_result [of cl "[]" 0 ?sn3] obtain ys n sn' where
    e: "compact cl [] 0 ?sn3 = (ys, n, sn')"
    and s: "subseq ys cl" and m: "set ys = {q \<in> set cl. ?sn3 (toInt q)}"
    and d: "distinct cl \<longrightarrow> ys = filter (\<lambda>q. ?sn3 (toInt q)) cl"
    and h: "\<forall>q qs'. cl = q # qs' \<and> ?sn3 (toInt q) \<longrightarrow> (\<exists>ys'. ys = q # ys')"
    by auto
  obtain q qs' where cl: "cl = q # qs'" using assms(2) by (cases cl) auto
  then have "?sn3 (toInt q)" by simp
  with h cl obtain ys' where y: "ys = q # ys'" by blast
  have "minimiseLearntFurther cl glue s =
          Inr (ys, s\<lparr>furtherClMinim := furtherClMinim s + 1, seen := sn',
                     numShrinkedClause := numShrinkedClause s + (if n > 0 then 1 else 0),
                     numShrinkedClauseLits := numShrinkedClauseLits s + n\<rparr>)"
    using assms e by (simp add: minimiseLearntFurther_def Let_def)
  moreover have "set ys = {q \<in> set cl. q = cl ! 0 \<or> minim_seen s cl (toInt q)}"
    using m by (simp only: c)
  moreover have "distinct cl \<longrightarrow> ys = filter (\<lambda>q. q = cl ! 0 \<or> minim_seen s cl (toInt q)) cl"
    using d by (simp only: c)
  moreover have "ys \<noteq> [] \<and> ys ! 0 = cl ! 0" using y cl by simp
  ultimately show ?thesis using s by blast
qed

theorem minimiseLearntFurther_only_removes_witness:
  "doCache (conf ex_minim) \<and>
   (case minimiseLearntFurther [Lit 0 True, Lit 1 True, Lit 2 True] 3 ex_minim of
      Inl e \<Rightarrow> False
    | Inr (out, s') \<Rightarrow>
        out = [Lit 0 True, Lit 2 True] \<and>
        subseq out [Lit 0 True, Lit 1 True, Lit 2 True] \<and>
        out ! 0 = [Lit 0 True, Lit 1 True, Lit 2 True] ! 0 \<and>
        set out = {q \<in> set [Lit 0 True, Lit 1 True, Lit 2 True].
                     q = Lit 0 True \<or>
                     minim_seen ex_minim [Lit 0 True, Lit 1 True, Lit 2 True] (toInt q)})"
proof -
  let ?cl = "[Lit 0 True, Lit 1 True, Lit 2 True]"
  have h1: "doCache (conf ex_minim)" by (simp add: ex_minim_def solver0_def)
  have h2: "?cl \<noteq> []" by simp
  have v: "(case minimiseLearntFurther ?cl 3 ex_minim of
              Inl e \<Rightarrow> False | Inr (out, s') \<Rightarrow> out = [Lit 0 True, Lit 2 True])"
    by code_simp
  from minimiseLearntFurther_only_removes [OF h1 h2, of 3] obtain out s' where
    r: "minimiseLearntFurther ?cl 3 ex_minim = Inr (out, s')"
    and p: "subseq out ?cl" "out ! 0 = ?cl ! 0"
      "set out = {q \<in> set ?cl. q = ?cl ! 0 \<or> minim_seen ex_minim ?cl (toInt q)}"
    by blast
  from v r have "out = [Lit 0 True, Lit 2 True]" by simp
  with r p h1 show ?thesis by simp
qed

section \<open>The backtrack level computed by analyze\<close>

lemma find_max_i_upto:
  fixes lev :: "nat \<Rightarrow> nat"
  shows "2 \<le> n \<Longrightarrow>
    (let m = foldl (\<lambda>max_i i. if lev i > lev max_i then i else max_i) 1 [2..<n]
     in 1 \<le> m \<and> m < n \<and> (\<forall>i. 1 \<le> i \<and> i < n \<longrightarrow> lev i \<le> lev m))"
proof (induction n)
  case 0
  then show ?case by simp
next
  case (Suc n)
  show ?case
  proof (cases "n = 1")
    case True
    have "lev i \<le> lev (Suc 0)" if "Suc 0 \<le> i" "i < Suc (Suc 0)" for i
    proof -
      from that have "i = Suc 0" by arith
      then show ?thesis by simp
    qed
    with True show ?thesis by (simp add: Let_def)
  next
    case False
    with Suc.prems have n: "2 \<le> n" by simp
    define m where "m = foldl (\<lambda>max_i i. if lev i > lev max_i then i else max_i) 1 [2..<n]"
    from Suc.IH [OF n] have m: "1 \<le> m" "m < n" and mx: "\<And>i. 1 \<le> i \<Longrightarrow> i < n \<Longrightarrow> lev i \<le> lev m"
      by (simp_all add: Let_def m_def)
    have u: "[2..<Suc n] = [2..<n] @ [n]" using n by simp
    have step: "foldl (\<lambda>max_i i. if lev i > lev max_i then i else max_i) 1 [2..<Suc n] =
                  (if lev n > lev m then n else m)"
      by (simp only: u foldl_append foldl.simps m_def [symmetric])
    show ?thesis
    proof (cases "lev n > lev m")
      case True
      have "lev i \<le> lev n" if "1 \<le> i" "i < Suc n" for i
      proof (cases "i = n")
        case False
        with that have "i < n" by simp
        from mx [OF that(1) this] True show ?thesis by simp
      qed simp
      moreover have "1 \<le> n" using n by simp
      ultimately show ?thesis by (simp only: Let_def step True if_True) simp
    next
      case False
      have "lev i \<le> lev m" if "1 \<le> i" "i < Suc n" for i
      proof (cases "i = n")
        case True
        with False show ?thesis by simp
      next
        case False
        with that have "i < n" by simp
        from mx [OF that(1) this] show ?thesis .
      qed
      moreover have "m < Suc n" using m(2) by simp
      ultimately show ?thesis using m(1) by (simp only: Let_def step False if_False) simp
    qed
  qed
qed

lemma find_btlevel_result:
  assumes "find_btlevel s xs = (out, bt)"
  shows "length out = length xs \<and>
         (2 \<le> length out \<longrightarrow>
            (\<forall>i. 1 \<le> i \<and> i < length out \<longrightarrow>
                 level (varData s (var (out ! i))) \<le> level (varData s (var (out ! 1)))) \<and>
            bt = level (varData s (var (out ! 1)))) \<and>
         (length out \<le> 1 \<longrightarrow> bt = 0)"
proof (cases "length xs \<le> 1")
  case True
  with assms show ?thesis by (auto simp: find_btlevel_def)
next
  case False
  then have n: "2 \<le> length xs" by simp
  let ?lev = "\<lambda>i. level (varData s (var (xs ! i)))"
  let ?m = "find_max_i s xs"
  from find_max_i_upto [OF n, of ?lev]
  have m: "1 \<le> ?m" "?m < length xs" "\<forall>i. 1 \<le> i \<and> i < length xs \<longrightarrow> ?lev i \<le> ?lev ?m"
    by (simp_all add: Let_def find_max_i_def)
  from assms False have o: "out = swap_vec ?m 1 xs"
    and b: "bt = level (varData s (var (out ! 1)))"
    by (auto simp: find_btlevel_def Let_def)
  have l: "length out = length xs" by (simp add: o swap_vec_def)
  have o1: "out ! 1 = xs ! ?m" using n m by (simp add: o swap_vec_def)
  have "level (varData s (var (out ! i))) \<le> ?lev ?m" if "1 \<le> i" "i < length out" for i
  proof -
    have "out ! i = xs ! i \<or> out ! i = xs ! 1 \<or> out ! i = xs ! ?m"
      using that l m(2) n by (auto simp: o swap_vec_def nth_list_update)
    then show ?thesis using m(3) that l n by auto
  qed
  with b l o1 n show ?thesis by simp
qed

text \<open>
  C4. When \<open>analyze\<close> returns a learnt clause with at least two literals, no literal at
  the positions from 1 on has a higher decision level than the literal at position 1,
  and \<open>out_btlevel\<close> is the level of that literal; when the clause has at most one
  literal, \<open>out_btlevel\<close> is 0.
\<close>

theorem analyze_backtrack_level:
  assumes "analyze K confl out_learnt s = Inr (out, out_btlevel, glue, s')"
  shows "(2 \<le> length out \<longrightarrow>
            (\<forall>i. 1 \<le> i \<and> i < length out \<longrightarrow>
                 level (varData s' (var (out ! i))) \<le> level (varData s' (var (out ! 1)))) \<and>
            out_btlevel = level (varData s' (var (out ! 1)))) \<and>
         (length out \<le> 1 \<longrightarrow> out_btlevel = 0)"
proof -
  from assms obtain out2 where "find_btlevel s' out2 = (out, out_btlevel)"
    by (auto simp: analyze_def Let_def split: sum.splits prod.splits)
  from find_btlevel_result [OF this] show ?thesis by simp
qed

lemma analyze_ex_conflict:
  "(case analyze K0 (binary_t (Lit 3 True)) [] ex_conflict of
      Inl e \<Rightarrow> False
    | Inr (out, out_btlevel, glue, s') \<Rightarrow>
        out = [Lit 2 True, Lit 4 True, Lit 0 True] \<and> out_btlevel = 2 \<and> glue = 3 \<and>
        furtherClMinim s' = 1 \<and>
        map (\<lambda>q. level (varData s' (var q))) out = [3, 2, 1])"
  by code_simp

theorem analyze_backtrack_level_witness:
  "(case analyze K0 (binary_t (Lit 3 True)) [] ex_conflict of
      Inl e \<Rightarrow> False
    | Inr (out, out_btlevel, glue, s') \<Rightarrow>
        out = [Lit 2 True, Lit 4 True, Lit 0 True] \<and> 2 \<le> length out \<and>
        out_btlevel = 2 \<and>
        out_btlevel = level (varData s' (var (out ! 1))) \<and>
        level (varData s' (var (out ! 2))) \<le> level (varData s' (var (out ! 1))))"
proof -
  from analyze_ex_conflict obtain out bt glue s' where
    r: "analyze K0 (binary_t (Lit 3 True)) [] ex_conflict = Inr (out, bt, glue, s')"
    and o: "out = [Lit 2 True, Lit 4 True, Lit 0 True]" and b: "bt = 2"
    by (auto split: sum.splits)
  from analyze_backtrack_level [OF r] o
  have "bt = level (varData s' (var (out ! 1)))"
    and "level (varData s' (var (out ! 2))) \<le> level (varData s' (var (out ! 1)))"
    by auto
  with r o b show ?thesis by simp
qed

section \<open>analyze always calls minimiseLearntFurther\<close>

lemma same_conf_refl [simp]: "same_conf s s"
  by (simp add: same_conf_def)

lemma same_conf_trans: "same_conf s s1 \<Longrightarrow> same_conf s1 s2 \<Longrightarrow> same_conf s s2"
  by (simp add: same_conf_def)

lemma analyze_add_keeps:
  "analyze_add K q (s, pathC, out) = (s', pathC', out') \<Longrightarrow>
     same_conf s s' \<and> length out \<le> length out'"
  by (auto simp: analyze_add_def Let_def same_conf_def split: if_splits)

lemma analyze_clause_keeps:
  "analyze_clause K skip pos j qs (s, pathC, out) = Inr (s', pathC', out') \<Longrightarrow>
     same_conf s s' \<and> length out \<le> length out'"
proof (induction qs arbitrary: j s pathC out)
  case Nil
  then show ?case by simp
next
  case (Cons q qs)
  show ?case
  proof (cases "skip \<and> j = pos")
    case True
    with Cons.prems have "analyze_clause K skip pos (j + 1) qs (s, pathC, out) = Inr (s', pathC', out')"
      by simp
    then show ?thesis by (rule Cons.IH)
  next
    case False
    obtain s1 pathC1 out1 where a: "analyze_add K q (s, pathC, out) = (s1, pathC1, out1)"
      by (cases "analyze_add K q (s, pathC, out)") auto
    with False Cons.prems
    have "analyze_clause K skip pos (j + 1) qs (s1, pathC1, out1) = Inr (s', pathC', out')"
      by (auto split: if_splits)
    from Cons.IH [OF this] analyze_add_keeps [OF a] show ?thesis
      by (auto intro: same_conf_trans)
  qed
qed

lemma analyze_binary_keeps:
  assumes "analyze_binary K p other (s, pathC, out) = (s', pathC', out')"
  shows "same_conf s s' \<and> length out \<le> length out'"
proof -
  obtain s1 pathC1 out1 where
    a: "(if p = lit_Undef then analyze_add K (failBinLit s) (s, pathC, out) else (s, pathC, out))
          = (s1, pathC1, out1)"
    by (cases "if p = lit_Undef then analyze_add K (failBinLit s) (s, pathC, out) else (s, pathC, out)")
       auto
  then have k: "same_conf s s1 \<and> length out \<le> length out1"
    by (auto split: if_splits dest: analyze_add_keeps)
  from assms a have "analyze_add K other (s1, pathC1, out1) = (s', pathC', out')"
    by (auto simp: analyze_binary_def split: if_splits)
  from analyze_add_keeps [OF this] k show ?thesis by (auto intro: same_conf_trans)
qed

lemma analyze_reason_keeps:
  assumes "analyze_reason K p confl (s, pathC, out) = Inr (s', pathC', out')"
  shows "same_conf s s' \<and> length out \<le> length out'"
proof (cases confl)
  case null_clause_t
  with assms show ?thesis by simp
next
  case (binary_t other)
  with assms show ?thesis by (auto dest: analyze_binary_keeps)
next
  case (tertiary_t other other2)
  obtain s1 pathC1 out1 where a: "analyze_add K other2 (s, pathC, out) = (s1, pathC1, out1)"
    by (cases "analyze_add K other2 (s, pathC, out)") auto
  with assms tertiary_t have "analyze_binary K p other (s1, pathC1, out1) = (s', pathC', out')"
    by simp
  from analyze_binary_keeps [OF this] analyze_add_keeps [OF a] show ?thesis
    by (auto intro: same_conf_trans)
next
  case (clause_t offs w)
  with assms show ?thesis by (auto simp: Let_def dest: analyze_clause_keeps)
qed

lemma analyze_loop_keeps:
  "analyze_loop K confl p idx pathC out s = Inr (p', pathC', out', s') \<Longrightarrow>
     same_conf s s' \<and> length out \<le> length out'"
proof (induction K confl p idx pathC out s rule: analyze_loop.induct)
  case (1 K confl p idx pathC out s)
  from "1.prems" obtain s1 pathC1 out1 where
    r: "analyze_reason K p confl (s, pathC, out) = Inr (s1, pathC1, out1)"
    by (auto simp: analyze_loop.simps [of K confl p idx pathC out s] split: sum.splits)
  from "1.prems" r obtain i where n: "next_seen s1 idx = Some i"
    by (auto simp: analyze_loop.simps [of K confl p idx pathC out s] split: option.splits)
  let ?p = "trail s1 ! i"
  let ?s2 = "s1\<lparr>seen := (seen s1)(var ?p := False)\<rparr>"
  have k1: "same_conf s s1 \<and> length out \<le> length out1"
    using analyze_reason_keeps [OF r] .
  have k2: "same_conf s1 ?s2" by (simp add: same_conf_def)
  show ?case
  proof (cases "pathC1 - 1 > 0")
    case True
    with "1.prems" r n
    have c: "analyze_loop K (reason (varData s1 (var ?p))) ?p i (pathC1 - 1) out1 ?s2 =
               Inr (p', pathC', out', s')"
      by (simp add: analyze_loop.simps [of K confl p idx pathC out s] Let_def)
    from "1.IH" [OF r refl refl n refl refl refl refl True c] k1 k2
    show ?thesis by (auto intro: same_conf_trans)
  next
    case False
    with "1.prems" r n have "out' = out1" "s' = ?s2"
      by (auto simp: analyze_loop.simps [of K confl p idx pathC out s] Let_def)
    with k1 k2 show ?thesis by (auto intro: same_conf_trans)
  qed
qed

lemma analyze_firstUIP_keeps:
  assumes "analyze_firstUIP K confl out_learnt s = Inr (out1, s3)"
  shows "conf s3 = conf s \<and> furtherClMinim s3 = furtherClMinim s \<and> out1 \<noteq> []"
proof -
  from assms obtain p pathC out0 s1 where
    l: "analyze_loop K confl lit_Undef (length (trail s)) 0 [lit_Undef] s = Inr (p, pathC, out0, s1)"
    and o: "out1 = out0[0 := lit_neg p]"
    and s3: "s3 = s1\<lparr>max_literals := max_literals s1 + length out1,
                      seen := foldl (\<lambda>a q. a(var q := False)) (seen s1) out1,
                      toClear := []\<rparr>"
    by (auto simp: analyze_firstUIP_def Let_def split: if_splits sum.splits)
  from analyze_loop_keeps [OF l] have "same_conf s s1" "1 \<le> length out0" by simp_all
  with o s3 show ?thesis by (auto simp: same_conf_def)
qed

text \<open>
  C3. Whenever the resolution part of \<open>analyze\<close> has produced its learnt clause,
  \<open>analyze\<close> calls \<open>minimiseLearntFurther\<close> on it, whatever the configuration and the
  histories are: with \<open>doCache\<close> set the call returns and \<open>analyze\<close> returns with the
  counter of calls \<open>furtherClMinim\<close> raised by one and with the clause that
  \<open>minimiseLearntFurther\<close> produced (up to the swap for the backtrack level); with
  \<open>doCache\<close> not set \<open>analyze\<close> ends in the assertion at the entry of
  \<open>minimiseLearntFurther\<close>. Neither \<open>doMinimLearntMore\<close> nor \<open>doAlwaysFMinim\<close> nor
  any average is consulted.
\<close>

theorem analyze_always_minimises:
  assumes "analyze_firstUIP K confl out_learnt s = Inr (out1, s3)"
  shows "(doCache (conf s) \<longrightarrow>
            (\<exists>out2 s4 out out_btlevel glue s'.
               minimiseLearntFurther out1 (calcNBLevels s3 out1) s3 = Inr (out2, s4) \<and>
               analyze K confl out_learnt s = Inr (out, out_btlevel, glue, s') \<and>
               out = fst (find_btlevel s' out2) \<and>
               furtherClMinim s' = furtherClMinim s + 1)) \<and>
         (\<not> doCache (conf s) \<longrightarrow>
            analyze K confl out_learnt s = Inl (AssertionFailed ''conf.doCache''))"
proof (intro conjI impI)
  from analyze_firstUIP_keeps [OF assms]
  have c: "conf s3 = conf s" and f: "furtherClMinim s3 = furtherClMinim s" and n: "out1 \<noteq> []"
    by simp_all
  {
    assume "\<not> doCache (conf s)"
    then show "analyze K confl out_learnt s = Inl (AssertionFailed ''conf.doCache'')"
      using assms c by (simp add: analyze_def minimiseLearntFurther_def)
  }
  {
    assume d: "doCache (conf s)"
    obtain kept removedLits sn4 where
      k: "compact out1 [] 0 ((minim_seen s3 out1)(toInt (out1 ! 0) := True)) = (kept, removedLits, sn4)"
      by (cases "compact out1 [] 0 ((minim_seen s3 out1)(toInt (out1 ! 0) := True))") auto
    let ?s4 = "s3\<lparr>furtherClMinim := furtherClMinim s3 + 1, seen := sn4,
                   numShrinkedClause := numShrinkedClause s3 + (if removedLits > 0 then 1 else 0),
                   numShrinkedClauseLits := numShrinkedClauseLits s3 + removedLits\<rparr>"
    have m: "minimiseLearntFurther out1 (calcNBLevels s3 out1) s3 = Inr (kept, ?s4)"
      using d c n k by (simp add: minimiseLearntFurther_def Let_def)
    let ?s5 = "?s4\<lparr>tot_literals := tot_literals ?s4 + length kept\<rparr>"
    have a: "analyze K confl out_learnt s =
               Inr (fst (find_btlevel ?s5 kept), snd (find_btlevel ?s5 kept),
                    calcNBLevels ?s4 kept, ?s5)"
      using assms m by (simp add: analyze_def Let_def split: prod.splits)
    have "furtherClMinim ?s5 = furtherClMinim s + 1" using f by simp
    with m a show "\<exists>out2 s4 out out_btlevel glue s'.
               minimiseLearntFurther out1 (calcNBLevels s3 out1) s3 = Inr (out2, s4) \<and>
               analyze K confl out_learnt s = Inr (out, out_btlevel, glue, s') \<and>
               out = fst (find_btlevel s' out2) \<and>
               furtherClMinim s' = furtherClMinim s + 1"
      by blast
  }
qed

theorem analyze_always_minimises_witness:
  "(\<not> doMinimLearntMore (conf (ex_conflict\<lparr>conf := (conf ex_conflict)\<lparr>doMinimLearntMore := False\<rparr>\<rparr>)) \<and>
    doCache (conf (ex_conflict\<lparr>conf := (conf ex_conflict)\<lparr>doMinimLearntMore := False\<rparr>\<rparr>)) \<and>
    (case analyze K0 (binary_t (Lit 3 True)) []
            (ex_conflict\<lparr>conf := (conf ex_conflict)\<lparr>doMinimLearntMore := False\<rparr>\<rparr>) of
       Inl e \<Rightarrow> False
     | Inr (out, out_btlevel, glue, s') \<Rightarrow> furtherClMinim s' = furtherClMinim ex_conflict + 1)) \<and>
   (\<not> doCache (conf ex_conflict_nocache) \<and>
    (case analyze K0 (binary_t (Lit 3 True)) [] ex_conflict_nocache of
       Inl e \<Rightarrow> e = AssertionFailed ''conf.doCache''
     | Inr r \<Rightarrow> False))"
proof -
  let ?c = "binary_t (Lit 3 True)"
  let ?a = "ex_conflict\<lparr>conf := (conf ex_conflict)\<lparr>doMinimLearntMore := False\<rparr>\<rparr>"
  have ua: "(case analyze_firstUIP K0 ?c [] ?a of Inl e \<Rightarrow> False | Inr (out1, s3) \<Rightarrow> True)"
    by code_simp
  then obtain out1 s3 where fa: "analyze_firstUIP K0 ?c [] ?a = Inr (out1, s3)"
    by (auto split: sum.splits)
  have ub: "(case analyze_firstUIP K0 ?c [] ex_conflict_nocache of
               Inl e \<Rightarrow> False | Inr (out1, s3) \<Rightarrow> True)"
    by code_simp
  then obtain out1' s3' where fb: "analyze_firstUIP K0 ?c [] ex_conflict_nocache = Inr (out1', s3')"
    by (auto split: sum.splits)
  have da: "doCache (conf ?a)" "\<not> doMinimLearntMore (conf ?a)"
    "furtherClMinim ?a = furtherClMinim ex_conflict"
    by (simp_all add: ex_conflict_def solver0_def)
  have db: "\<not> doCache (conf ex_conflict_nocache)"
    by (simp add: ex_conflict_nocache_def)
  from analyze_always_minimises [OF fa] da
  have A: "(case analyze K0 ?c [] ?a of
       Inl e \<Rightarrow> False
     | Inr (out, out_btlevel, glue, s') \<Rightarrow> furtherClMinim s' = furtherClMinim ex_conflict + 1)"
    by auto
  from analyze_always_minimises [OF fb] db
  have B: "(case analyze K0 ?c [] ex_conflict_nocache of
       Inl e \<Rightarrow> e = AssertionFailed ''conf.doCache''
     | Inr r \<Rightarrow> False)"
    by simp
  show ?thesis using da db A B by simp
qed

text \<open>
  C9 fails on the code. In a worker configured with \<open>doCache = false\<close>, the analysis of
  the conflict of \<open>ex_conflict_nocache\<close> (at decision level 3) reaches
  \<open>minimiseLearntFurther\<close> and stops in its assertion \<open>conf.doCache\<close>.
\<close>

theorem analyze_without_cache_assertion_fails:
  "\<not> doCache (conf ex_conflict_nocache) \<and>
   decisionLevel ex_conflict_nocache = 3 \<and>
   (case analyze_firstUIP K0 (binary_t (Lit 3 True)) [] ex_conflict_nocache of
      Inl e \<Rightarrow> False
    | Inr (out1, s3) \<Rightarrow>
        out1 = [Lit 2 True, Lit 0 True, Lit 4 True] \<and>
        (case minimiseLearntFurther out1 (calcNBLevels s3 out1) s3 of
           Inl e \<Rightarrow> e = AssertionFailed ''conf.doCache''
         | Inr r \<Rightarrow> False)) \<and>
   (case analyze K0 (binary_t (Lit 3 True)) [] ex_conflict_nocache of
      Inl e \<Rightarrow> e = AssertionFailed ''conf.doCache''
    | Inr r \<Rightarrow> False)"
  by code_simp

end
